theory Spec2Isabelle
  imports Main "HOL-Library.Word"
begin

unbundle bit_operations_syntax

section \<open>GaloisField.h: the GF(256) context and its scalar operations\<close>

text \<open>
  A \<^verbatim>\<open>uint8_t\<close> is an 8-bit word, the C \<^verbatim>\<open>unsigned\<close> a 32-bit word. The context class
  \<^verbatim>\<open>gf256_ctx\<close> is a record of the four tables that the inline functions of the header
  read. A C array has the length of its declaration; a list has any length, so the
  declared lengths are the predicate \<open>gf256_ctx_sized\<close>, and a read outside a table is
  the value \<open>None\<close>. The SIMD shuffle tables, the log and exponent tables and the
  polynomial are read only by the initialisation code and are not part of the record.
\<close>

type_synonym uint8 = "8 word"

record gf256_ctx =
  GF256_MUL_TABLE :: "uint8 list"
  GF256_DIV_TABLE :: "uint8 list"
  GF256_INV_TABLE :: "uint8 list"
  GF256_SQR_TABLE :: "uint8 list"

definition gf256_ctx_sized :: "gf256_ctx \<Rightarrow> bool" where
  "gf256_ctx_sized ctx \<longleftrightarrow>
     length (GF256_MUL_TABLE ctx) = 256 * 256 \<and>
     length (GF256_DIV_TABLE ctx) = 256 * 256 \<and>
     length (GF256_INV_TABLE ctx) = 256 \<and>
     length (GF256_SQR_TABLE ctx) = 256"

definition table_read :: "'a list \<Rightarrow> nat \<Rightarrow> 'a option" where
  "table_read t i = (if i < length t then Some (t ! i) else None)"

text \<open>\<^verbatim>\<open>return (uint8_t)(x ^ y);\<close> with both operands promoted first.\<close>

definition gf256_add :: "uint8 \<Rightarrow> uint8 \<Rightarrow> uint8" where
  "gf256_add x y = ucast ((ucast x :: 32 word) XOR (ucast y :: 32 word))"

text \<open>The table index \<^verbatim>\<open>((unsigned)y << 8) + x\<close>.\<close>

definition table_index :: "uint8 \<Rightarrow> uint8 \<Rightarrow> nat" where
  "table_index x y = unat (push_bit 8 (ucast y :: 32 word) + (ucast x :: 32 word))"

definition gf256_mul :: "gf256_ctx \<Rightarrow> uint8 \<Rightarrow> uint8 \<Rightarrow> uint8 option" where
  "gf256_mul ctx x y = table_read (GF256_MUL_TABLE ctx) (table_index x y)"

definition gf256_div :: "gf256_ctx \<Rightarrow> uint8 \<Rightarrow> uint8 \<Rightarrow> uint8 option" where
  "gf256_div ctx x y = table_read (GF256_DIV_TABLE ctx) (table_index x y)"

definition gf256_inv :: "gf256_ctx \<Rightarrow> uint8 \<Rightarrow> uint8 option" where
  "gf256_inv ctx x = table_read (GF256_INV_TABLE ctx) (unat x)"

definition gf256_sqr :: "gf256_ctx \<Rightarrow> uint8 \<Rightarrow> uint8 option" where
  "gf256_sqr ctx x = table_read (GF256_SQR_TABLE ctx) (unat x)"

section \<open>The encoder's parameters and block indices\<close>

text \<open>
  The three \<^verbatim>\<open>int\<close> fields of \<^verbatim>\<open>EncoderParams\<close> are integers; within the valid
  parameter sets no sum of them leaves the range of a C \<^verbatim>\<open>int\<close>. A failed
  \<^verbatim>\<open>assert\<close> aborts the program: the value \<open>None\<close>.
\<close>

record EncoderParams =
  OriginalCount :: int
  RecoveryCount :: int
  BlockBytes :: int

definition valid_params :: "EncoderParams \<Rightarrow> bool" where
  "valid_params params \<longleftrightarrow>
     1 \<le> OriginalCount params \<and> OriginalCount params \<le> 255 \<and>
     1 \<le> RecoveryCount params \<and> RecoveryCount params \<le> 255 \<and>
     OriginalCount params + RecoveryCount params \<le> 256 \<and>
     0 < BlockBytes params"

definition GetOriginalBlockIndex :: "EncoderParams \<Rightarrow> int \<Rightarrow> uint8 option" where
  "GetOriginalBlockIndex params originalBlockIndex =
     (if originalBlockIndex \<ge> 0 \<and> originalBlockIndex < OriginalCount params
      then Some (word_of_int originalBlockIndex) else None)"

definition GetRecoveryBlockIndex :: "EncoderParams \<Rightarrow> int \<Rightarrow> uint8 option" where
  "GetRecoveryBlockIndex params recoveryBlockIndex =
     (if recoveryBlockIndex \<ge> 0 \<and> recoveryBlockIndex < RecoveryCount params
      then Some (word_of_int (OriginalCount params + recoveryBlockIndex)) else None)"

section \<open>The field tables\<close>

text \<open>
  Modelled from the spec: the initialisation of the context (\<^verbatim>\<open>gf256_init\<close> and the
  functions it calls are declared in the header and defined in a file that is not among
  the sources). The spec fixes the polynomial 0x11D, builds the exponent and logarithm
  tables "by iterating the primitive element under p(x)", then the product and quotient
  tables "via LOG/EXP" with \<^verbatim>\<open>MUL[(y<<8)+x] = x*y\<close> and \<^verbatim>\<open>DIV[(y<<8)+x] = x/y\<close>, the
  inverse table with the special case 0 to 0, and the table of squares.

  \<open>gf256_next\<close> multiplies by the primitive element: a shift to the left, reduced by
  the polynomial when bit 8 is set. \<open>gf256_exp n\<close> is the \<open>n\<close>-th power of the primitive
  element and \<open>gf256_log x\<close> the least exponent that gives \<open>x\<close>; for 0, which is no power,
  the search ends at the sentinel 255. The spec leaves the quotient by 0 open; the table
  of the model holds 0 there.
\<close>

definition gf256_poly :: "32 word" where
  "gf256_poly = 0x11D"

definition gf256_next :: "uint8 \<Rightarrow> uint8" where
  "gf256_next b = (let n = push_bit 1 (ucast b :: 32 word)
                   in ucast (if bit n 8 then n XOR gf256_poly else n))"

definition gf256_exp :: "nat \<Rightarrow> uint8" where
  "gf256_exp n = (gf256_next ^^ n) 1"

fun gf256_log_search :: "nat \<Rightarrow> uint8 \<Rightarrow> uint8 \<Rightarrow> nat" where
  "gf256_log_search 0 p x = 0"
| "gf256_log_search (Suc fuel) p x =
     (if p = x then 0 else Suc (gf256_log_search fuel (gf256_next p) x))"

definition gf256_log :: "uint8 \<Rightarrow> nat" where
  "gf256_log x = gf256_log_search 255 1 x"

definition gf256_mul_entry :: "uint8 \<Rightarrow> uint8 \<Rightarrow> uint8" where
  "gf256_mul_entry x y =
     (if x = 0 \<or> y = 0 then 0 else gf256_exp (gf256_log x + gf256_log y))"

definition gf256_div_entry :: "uint8 \<Rightarrow> uint8 \<Rightarrow> uint8" where
  "gf256_div_entry x y =
     (if x = 0 \<or> y = 0 then 0 else gf256_exp (gf256_log x + 255 - gf256_log y))"

definition gf256_inv_entry :: "uint8 \<Rightarrow> uint8" where
  "gf256_inv_entry x = (if x = 0 then 0 else gf256_div_entry 1 x)"

definition gf256_sqr_entry :: "uint8 \<Rightarrow> uint8" where
  "gf256_sqr_entry x = gf256_mul_entry x x"

definition gf256_init :: gf256_ctx where
  "gf256_init =
     \<lparr>GF256_MUL_TABLE =
        map (\<lambda>i. gf256_mul_entry (of_nat (i mod 256)) (of_nat (i div 256))) [0..<256 * 256],
      GF256_DIV_TABLE =
        map (\<lambda>i. gf256_div_entry (of_nat (i mod 256)) (of_nat (i div 256))) [0..<256 * 256],
      GF256_INV_TABLE = map (\<lambda>i. gf256_inv_entry (of_nat i)) [0..<256],
      GF256_SQR_TABLE = map (\<lambda>i. gf256_sqr_entry (of_nat i)) [0..<256]\<rparr>"

section \<open>Bulk memory operations\<close>

text \<open>
  A buffer is the list of its bytes, and an operation returns the new contents of the
  buffer it writes. The byte count is the C \<^verbatim>\<open>int\<close>; a count below 1 touches nothing.

  Modelled from the spec: \<^verbatim>\<open>gf256_add_mem\<close>, \<^verbatim>\<open>gf256_mul_mem\<close> and
  \<^verbatim>\<open>gf256_muladd_mem\<close> (declared in the header, defined in a file that is not among the
  sources). The spec gives them bytewise: \<^verbatim>\<open>x[i] ^= y[i]\<close>, \<^verbatim>\<open>z[i] = x[i] * y\<close> and
  \<^verbatim>\<open>z[i] ^= x[i] * y\<close> for all \<^verbatim>\<open>i\<close> below the count, with the product of the field.
\<close>

definition gf256_add_mem :: "uint8 list \<Rightarrow> uint8 list \<Rightarrow> int \<Rightarrow> uint8 list" where
  "gf256_add_mem vx vy bytes =
     map2 gf256_add (take (nat bytes) vx) (take (nat bytes) vy) @ drop (nat bytes) vx"

definition gf256_mul_mem :: "uint8 list \<Rightarrow> uint8 list \<Rightarrow> uint8 \<Rightarrow> int \<Rightarrow> uint8 list" where
  "gf256_mul_mem vz vx y bytes =
     map (\<lambda>b. gf256_mul_entry b y) (take (nat bytes) vx) @ drop (nat bytes) vz"

definition gf256_muladd_mem :: "uint8 list \<Rightarrow> uint8 \<Rightarrow> uint8 list \<Rightarrow> int \<Rightarrow> uint8 list" where
  "gf256_muladd_mem vz y vx bytes =
     map2 (\<lambda>c b. gf256_add c (gf256_mul_entry b y)) (take (nat bytes) vz) (take (nat bytes) vx)
       @ drop (nat bytes) vz"

text \<open>
  \<^verbatim>\<open>gf256_div_mem\<close> is the inline function of the header:
  \<^verbatim>\<open>gf256_mul_mem(vz, vx, y == 1 ? (uint8_t)1 : GF256_INV_TABLE[y], bytes);\<close>
\<close>

definition gf256_div_mem ::
  "gf256_ctx \<Rightarrow> uint8 list \<Rightarrow> uint8 list \<Rightarrow> uint8 \<Rightarrow> int \<Rightarrow> uint8 list option" where
  "gf256_div_mem ctx vz vx y bytes =
     (case (if y = 1 then Some 1 else table_read (GF256_INV_TABLE ctx) (unat y)) of
        None \<Rightarrow> None
      | Some c \<Rightarrow> Some (gf256_mul_mem vz vx c bytes))"

section \<open>Blocks and the Cauchy matrix\<close>

text \<open>
  A \<^verbatim>\<open>DataBlock\<close> holds a pointer to its buffer and the index byte; the record holds
  the contents of the buffer. The four kinds of error are those of the spec.
\<close>

record DataBlock =
  Block :: "uint8 list"
  Index :: uint8

datatype error = ParameterError | InputError | InitError | InternalError

text \<open>
  Modelled from the spec: the matrix of coefficients (built in a file that is not among
  the sources). The spec defines \<^verbatim>\<open>C[i][j] = 1 / (X_i xor Y_j)\<close> with \<^verbatim>\<open>Y_j = j\<close>, and
  for the \<^verbatim>\<open>X_i\<close> names \<^verbatim>\<open>recovery_count - 1 - i + 128\<close> "or any deterministic assignment
  meeting the disjointness requirement": the encoder and the decoder of the model take
  the assignment \<open>X\<close>, \<open>spec_assignment\<close> is the one the spec names, and
  \<open>disjoint_assignment\<close> is the spec's requirement that the \<^verbatim>\<open>X_i\<close> differ from each other
  and from every \<^verbatim>\<open>Y_j\<close>. "Row 0 has all coefficients equal to 1 (or the matrix is
  normalized to make this so)": the entries of row 0 of \<open>matrix_element\<close> are 1, and
  every other row is divided, column by column, by the entry of row 0 of the Cauchy matrix.
\<close>

definition cauchy_element :: "(nat \<Rightarrow> uint8) \<Rightarrow> nat \<Rightarrow> nat \<Rightarrow> uint8" where
  "cauchy_element X i j = gf256_inv_entry (gf256_add (X i) (of_nat j))"

definition matrix_element :: "(nat \<Rightarrow> uint8) \<Rightarrow> nat \<Rightarrow> nat \<Rightarrow> uint8" where
  "matrix_element X i j =
     (if i = 0 then 1 else gf256_div_entry (cauchy_element X i j) (cauchy_element X 0 j))"

definition spec_assignment :: "EncoderParams \<Rightarrow> nat \<Rightarrow> uint8" where
  "spec_assignment params i = of_nat (nat (RecoveryCount params) - 1 - i + 128)"

definition disjoint_assignment :: "EncoderParams \<Rightarrow> (nat \<Rightarrow> uint8) \<Rightarrow> bool" where
  "disjoint_assignment params X \<longleftrightarrow>
     list_all (\<lambda>i. list_all (\<lambda>j. X i \<noteq> of_nat j) [0..<nat (OriginalCount params)])
       [0..<nat (RecoveryCount params)] \<and>
     distinct (map X [0..<nat (RecoveryCount params)])"

text \<open>
  Modelled from the spec: the assignment of the encoder and the decoder. The one that the
  spec names meets the disjointness requirement only while neither count exceeds 128:
  beyond that an \<^verbatim>\<open>X_i\<close> is the \<^verbatim>\<open>Y_j\<close> of an original. Of "any deterministic assignment
  meeting the disjointness requirement" the model takes for \<^verbatim>\<open>X_i\<close> the index byte of the
  recovery block \<open>i\<close>, the original count plus \<open>i\<close>, as \<^verbatim>\<open>GetRecoveryBlockIndex\<close> of the
  header computes it: for all valid parameters these bytes differ from each other and from
  the index of every original.
\<close>

definition index_assignment :: "EncoderParams \<Rightarrow> nat \<Rightarrow> uint8" where
  "index_assignment params i = of_nat (nat (OriginalCount params) + i)"

section \<open>The encoder\<close>

text \<open>
  Modelled from the spec: \<^verbatim>\<open>ReedSolomonEncoder::Encode\<close> and \<^verbatim>\<open>EncodeOneDataBlock\<close>
  (declared in the header, defined in a file that is not among the sources). The header
  says of the index of a block that it is "ignored during encoding": the original \<open>j\<close> is
  the \<open>j\<close>-th block of the array. \<open>EncodeOneDataBlock\<close> takes the index of the recovery
  block, the original count for the first. That first block is "an initial copy of O_0
  followed by add_mem of each remaining original"; every other starts with
  \<^verbatim>\<open>mul_mem(R_k, O_0, C[k][0])\<close>, followed by \<^verbatim>\<open>muladd_mem(R_k, C[k][j], O_j)\<close> for each
  further original. \<open>Encode\<close> refuses parameters outside the bounds and an array of
  another length with the parameter error, and returns the recovery blocks end to end.
\<close>

definition EncodeOneDataBlock ::
  "(nat \<Rightarrow> uint8) \<Rightarrow> EncoderParams \<Rightarrow> DataBlock list \<Rightarrow> int \<Rightarrow> uint8 list" where
  "EncodeOneDataBlock X params originals recoveryBlockIndex =
     (case originals of
        [] \<Rightarrow> []
      | o0 # rest \<Rightarrow>
          (if recoveryBlockIndex = OriginalCount params
           then fold (\<lambda>b acc. gf256_add_mem acc (Block b) (BlockBytes params)) rest
                  (take (nat (BlockBytes params)) (Block o0))
           else let row = nat (recoveryBlockIndex - OriginalCount params)
                in fold (\<lambda>(j, b) acc.
                          gf256_muladd_mem acc (matrix_element X row j) (Block b) (BlockBytes params))
                     (zip [1..<Suc (length rest)] rest)
                     (gf256_mul_mem (replicate (nat (BlockBytes params)) 0) (Block o0)
                        (matrix_element X row 0) (BlockBytes params))))"

definition Encode ::
  "(nat \<Rightarrow> uint8) \<Rightarrow> EncoderParams \<Rightarrow> DataBlock list \<Rightarrow> error + uint8 list" where
  "Encode X params originals =
     (if \<not> valid_params params then Inl ParameterError
      else if int (length originals) \<noteq> OriginalCount params then Inl ParameterError
      else Inr (concat (map (\<lambda>i. EncodeOneDataBlock X params originals
                                  (OriginalCount params + int i))
                          [0..<nat (RecoveryCount params)])))"

definition recovery_slice :: "EncoderParams \<Rightarrow> uint8 list \<Rightarrow> nat \<Rightarrow> uint8 list" where
  "recovery_slice params recoveryBlocks i =
     take (nat (BlockBytes params)) (drop (i * nat (BlockBytes params)) recoveryBlocks)"

section \<open>The decoder\<close>

text \<open>
  Modelled from the spec: \<^verbatim>\<open>ReedSolomonDecoder::Initialize\<close>, \<^verbatim>\<open>DecodeM1\<close>, the two
  \<^verbatim>\<open>Decode\<close> and \<^verbatim>\<open>GenerateLDUDecomposition\<close> (declared in the header, defined in a file
  that is not among the sources). The members \<^verbatim>\<open>Recovery\<close> and \<^verbatim>\<open>Original\<close> of the class
  point into the caller's array of blocks; the record holds positions in that array, and
  the array is passed and returned.

  \<open>Initialize\<close> is the partition of the spec: it refuses parameters outside the bounds, an
  array that does not hold the original count of blocks, an index beyond the last
  recovery index and a repeated index, each with the parameter error as the failure modes
  of the decoder list them, and records the positions of the originals and of the
  recoveries in their order and the sorted list of the original indices that are missing.
  \<open>missing_originals\<close> is that list of erasures, \<open>supplied_recoveries\<close> the blocks with
  the index of a recovery, \<open>recovery_positions\<close> and \<open>original_positions\<close> the positions
  of the two kinds of block in the array.
\<close>

record ReedSolomonDecoder =
  Params :: EncoderParams
  Recovery :: "nat list"
  Original :: "nat list"
  ErasuresIndices :: "uint8 list"

definition is_original :: "EncoderParams \<Rightarrow> DataBlock \<Rightarrow> bool" where
  "is_original params b \<longleftrightarrow> uint (Index b) < OriginalCount params"

definition missing_originals :: "EncoderParams \<Rightarrow> DataBlock list \<Rightarrow> uint8 list" where
  "missing_originals params blocks =
     filter (\<lambda>e. e \<notin> set (map Index blocks)) (map of_nat [0..<nat (OriginalCount params)])"

definition supplied_recoveries :: "EncoderParams \<Rightarrow> DataBlock list \<Rightarrow> DataBlock list" where
  "supplied_recoveries params blocks = filter (\<lambda>b. \<not> is_original params b) blocks"

definition recovery_positions :: "EncoderParams \<Rightarrow> DataBlock list \<Rightarrow> nat list" where
  "recovery_positions params blocks =
     filter (\<lambda>p. \<not> is_original params (blocks ! p)) [0..<length blocks]"

definition original_positions :: "EncoderParams \<Rightarrow> DataBlock list \<Rightarrow> nat list" where
  "original_positions params blocks =
     filter (\<lambda>p. is_original params (blocks ! p)) [0..<length blocks]"

definition Initialize :: "EncoderParams \<Rightarrow> DataBlock list \<Rightarrow> error + ReedSolomonDecoder" where
  "Initialize params blocks =
     (if \<not> valid_params params then Inl ParameterError
      else if int (length blocks) \<noteq> OriginalCount params then Inl ParameterError
      else if \<not> list_all (\<lambda>b. uint (Index b) < OriginalCount params + RecoveryCount params) blocks
        then Inl ParameterError
      else if \<not> distinct (map Index blocks) then Inl ParameterError
      else Inr \<lparr>Params = params,
                Recovery = recovery_positions params blocks,
                Original = original_positions params blocks,
                ErasuresIndices = missing_originals params blocks\<rparr>)"

text \<open>
  The right-hand side of the spec: the contributions of the surviving originals are
  added into the buffer of the recovery at position \<open>pos\<close>, "with muladd_mem (and add_mem
  where the coefficient is 1)".
\<close>

definition recovery_row :: "EncoderParams \<Rightarrow> DataBlock \<Rightarrow> nat" where
  "recovery_row params b = nat (uint (Index b) - OriginalCount params)"

definition subtract_originals ::
  "(nat \<Rightarrow> uint8) \<Rightarrow> ReedSolomonDecoder \<Rightarrow> DataBlock list \<Rightarrow> nat \<Rightarrow> uint8 list" where
  "subtract_originals X dec blocks pos =
     (let row = recovery_row (Params dec) (blocks ! pos); bytes = BlockBytes (Params dec)
      in fold (\<lambda>q acc.
                let c = matrix_element X row (unat (Index (blocks ! q)))
                in if c = 1 then gf256_add_mem acc (Block (blocks ! q)) bytes
                   else gf256_muladd_mem acc c (Block (blocks ! q)) bytes)
           (Original dec) (Block (blocks ! pos)))"

text \<open>
  The path for one erasure. With the recovery of row 0 the missing original is the XOR of
  the recovery and of all surviving originals, a path of its own; with another recovery it
  is the right-hand side times the inverse of the coefficient.
\<close>

definition DecodeM1 ::
  "(nat \<Rightarrow> uint8) \<Rightarrow> ReedSolomonDecoder \<Rightarrow> DataBlock list \<Rightarrow> DataBlock list" where
  "DecodeM1 X dec blocks =
     (case (Recovery dec, ErasuresIndices dec) of
        (pos # _, e # _) \<Rightarrow>
          (let row = recovery_row (Params dec) (blocks ! pos);
               bytes = BlockBytes (Params dec)
           in if row = 0
              then blocks[pos := \<lparr>Block = fold (\<lambda>q acc. gf256_add_mem acc (Block (blocks ! q)) bytes)
                                               (Original dec) (Block (blocks ! pos)),
                                     Index = e\<rparr>]
              else (let b = subtract_originals X dec blocks pos
                    in blocks[pos := \<lparr>Block = gf256_mul_mem b b
                                                 (gf256_inv_entry (matrix_element X row (unat e)))
                                                 bytes,
                                           Index = e\<rparr>]))
      | _ \<Rightarrow> blocks)"

text \<open>
  The factorisation \<open>A = L * D * U\<close> with \<open>L\<close> unit lower-triangular, \<open>D\<close> diagonal and \<open>U\<close>
  unit upper-triangular. Such a factorisation of a matrix is unique, so the closed form
  that the spec prefers and the elimination that it allows give the same three factors; the
  model eliminates. Step \<open>s\<close> takes the pivot from the diagonal, column \<open>s\<close> of \<open>L\<close> and
  row \<open>s\<close> of \<open>U\<close> from column and row \<open>s\<close> of the remaining matrix divided by the pivot,
  and subtracts their product. \<open>L\<close> is the list of its columns, \<open>U\<close> the list of its rows.
  A pivot 0 ends the factorisation with \<open>None\<close>: the internal error of the spec.
\<close>

definition eliminate :: "nat \<Rightarrow> uint8 list list \<Rightarrow> uint8 list list" where
  "eliminate s M =
     map (\<lambda>i. map (\<lambda>t. gf256_add (M ! i ! t)
                        (gf256_div_entry (gf256_mul_entry (M ! i ! s) (M ! s ! t)) (M ! s ! s)))
                [0..<length M])
       [0..<length M]"

fun ldu_steps ::
  "nat \<Rightarrow> nat \<Rightarrow> uint8 list list \<Rightarrow> (uint8 list list \<times> uint8 list \<times> uint8 list list) option" where
  "ldu_steps 0 s M = Some ([], [], [])"
| "ldu_steps (Suc k) s M =
     (if M ! s ! s = 0 then None
      else case ldu_steps k (Suc s) (eliminate s M) of
             None \<Rightarrow> None
           | Some (L, D, U) \<Rightarrow>
               Some (map (\<lambda>i. gf256_div_entry (M ! i ! s) (M ! s ! s)) [0..<length M] # L,
                     M ! s ! s # D,
                     map (\<lambda>t. gf256_div_entry (M ! s ! t) (M ! s ! s)) [0..<length M] # U))"

definition GenerateLDUDecomposition ::
  "uint8 list list \<Rightarrow> (uint8 list list \<times> uint8 list \<times> uint8 list list) option" where
  "GenerateLDUDecomposition A = ldu_steps (length A) 0 A"

text \<open>
  The three passes of the solve, in place on the list of right-hand sides: for each row
  \<open>i\<close> and each \<open>j < i\<close>, \<^verbatim>\<open>muladd_mem(b_i, L[i][j], b_j)\<close>; for each \<open>i\<close>, the division by
  \<open>D[i]\<close> as \<^verbatim>\<open>mul_mem\<close> by the inverse; for \<open>i\<close> from the last row down to 0 and each
  \<open>j > i\<close>, \<^verbatim>\<open>muladd_mem(b_i, U[i][j], b_j)\<close>.
\<close>

definition forward_substitute :: "uint8 list list \<Rightarrow> int \<Rightarrow> uint8 list list \<Rightarrow> uint8 list list" where
  "forward_substitute L bytes bs =
     fold (\<lambda>i bs. bs[i := fold (\<lambda>j b. gf256_muladd_mem b (L ! j ! i) (bs ! j) bytes)
                             [0..<i] (bs ! i)])
       [0..<length bs] bs"

definition divide_diagonal :: "uint8 list \<Rightarrow> int \<Rightarrow> uint8 list list \<Rightarrow> uint8 list list" where
  "divide_diagonal D bytes bs =
     map (\<lambda>i. gf256_mul_mem (bs ! i) (bs ! i) (gf256_inv_entry (D ! i)) bytes) [0..<length bs]"

definition back_substitute :: "uint8 list list \<Rightarrow> int \<Rightarrow> uint8 list list \<Rightarrow> uint8 list list" where
  "back_substitute U bytes bs =
     fold (\<lambda>i bs. bs[i := fold (\<lambda>j b. gf256_muladd_mem b (U ! i ! j) (bs ! j) bytes)
                             [Suc i..<length bs] (bs ! i)])
       (rev [0..<length bs]) bs"

text \<open>
  The path for more than one erasure: the matrix \<open>A[i][k] = C[r_i][e_k]\<close> of the rows of
  the recoveries in the order they were supplied and the sorted erasures, the right-hand
  sides, the factorisation and the solve. Then the block of the \<open>i\<close>-th recovery holds
  the \<open>i\<close>-th missing original and gets its index.
\<close>

definition DecodeM ::
  "(nat \<Rightarrow> uint8) \<Rightarrow> ReedSolomonDecoder \<Rightarrow> DataBlock list \<Rightarrow> DataBlock list option" where
  "DecodeM X dec blocks =
     (let bytes = BlockBytes (Params dec);
          rows = map (\<lambda>pos. recovery_row (Params dec) (blocks ! pos)) (Recovery dec);
          A = map (\<lambda>row. map (\<lambda>e. matrix_element X row (unat e)) (ErasuresIndices dec)) rows;
          bs = map (subtract_originals X dec blocks) (Recovery dec)
      in case GenerateLDUDecomposition A of
           None \<Rightarrow> None
         | Some (L, D, U) \<Rightarrow>
             (let xs = back_substitute U bytes (divide_diagonal D bytes (forward_substitute L bytes bs))
              in Some (fold (\<lambda>(pos, x, e) blks. blks[pos := \<lparr>Block = x, Index = e\<rparr>])
                         (zip (Recovery dec) (zip xs (ErasuresIndices dec))) blocks)))"

text \<open>
  The entry point: after the partition, no erasure returns the blocks as they are; a
  number of erasures other than the number of recoveries is the parameter error; one
  erasure takes the fast path and more take the factorisation.
\<close>

definition Decode ::
  "(nat \<Rightarrow> uint8) \<Rightarrow> EncoderParams \<Rightarrow> DataBlock list \<Rightarrow> error + DataBlock list" where
  "Decode X params blocks =
     (case Initialize params blocks of
        Inl e \<Rightarrow> Inl e
      | Inr dec \<Rightarrow>
          if ErasuresIndices dec = [] then Inr blocks
          else if length (ErasuresIndices dec) \<noteq> length (Recovery dec) then Inl ParameterError
          else if length (ErasuresIndices dec) = 1 then Inr (DecodeM1 X dec blocks)
          else (case DecodeM X dec blocks of
                  None \<Rightarrow> Inl InternalError
                | Some blocks' \<Rightarrow> Inr blocks'))"

section \<open>The field of 256 elements\<close>

text \<open>
  The bytes as a type of their own, with the operations of the library: the sum and the
  difference are \<open>gf256_add\<close>, and the product, the quotient and the inverse are the
  entries of the tables. The algebra of the Cauchy matrix is stated over this type.
\<close>

typedef gf256 = "UNIV :: uint8 set"
  by simp

setup_lifting type_definition_gf256

instantiation gf256 :: "{zero, one, plus, minus, uminus, times, inverse}"
begin
lift_definition zero_gf256 :: gf256 is 0 .
lift_definition one_gf256 :: gf256 is 1 .
lift_definition plus_gf256 :: "gf256 \<Rightarrow> gf256 \<Rightarrow> gf256" is gf256_add .
lift_definition minus_gf256 :: "gf256 \<Rightarrow> gf256 \<Rightarrow> gf256" is gf256_add .
lift_definition uminus_gf256 :: "gf256 \<Rightarrow> gf256" is "\<lambda>x. x" .
lift_definition times_gf256 :: "gf256 \<Rightarrow> gf256 \<Rightarrow> gf256" is gf256_mul_entry .
lift_definition inverse_gf256 :: "gf256 \<Rightarrow> gf256" is gf256_inv_entry .
lift_definition divide_gf256 :: "gf256 \<Rightarrow> gf256 \<Rightarrow> gf256" is gf256_div_entry .
instance ..
end

section \<open>Elimination without pivoting\<close>

text \<open>
  The factorisation that the decoder computes is compared with elimination over any
  field, on a matrix given as a function of the row and the column. \<open>schur A s\<close> is the
  matrix after \<open>s\<close> steps: each step subtracts from every entry the product of the entry of
  its row in the pivot column and the entry of its column in the pivot row, divided by the
  pivot.
\<close>

fun schur :: "(nat \<Rightarrow> nat \<Rightarrow> 'a::field) \<Rightarrow> nat \<Rightarrow> nat \<Rightarrow> nat \<Rightarrow> 'a" where
  "schur A 0 i t = A i t"
| "schur A (Suc s) i t = schur A s i t - schur A s i s * schur A s s t / schur A s s s"

text \<open>
  The three factors: the pivots, the pivot columns divided by the pivots, and the pivot
  rows divided by the pivots.
\<close>

definition ldu_D :: "(nat \<Rightarrow> nat \<Rightarrow> 'a::field) \<Rightarrow> nat \<Rightarrow> 'a" where
  "ldu_D A s = schur A s s s"

definition ldu_L :: "(nat \<Rightarrow> nat \<Rightarrow> 'a::field) \<Rightarrow> nat \<Rightarrow> nat \<Rightarrow> 'a" where
  "ldu_L A i s = schur A s i s / schur A s s s"

definition ldu_U :: "(nat \<Rightarrow> nat \<Rightarrow> 'a::field) \<Rightarrow> nat \<Rightarrow> nat \<Rightarrow> 'a" where
  "ldu_U A s t = schur A s s t / schur A s s s"

text \<open>
  The factors by which \<open>s\<close> steps of elimination scale row \<open>i\<close> and column \<open>t\<close> of the matrix
  of the entries \<open>v t / (x i - y t)\<close>.
\<close>

definition cauchy_u :: "(nat \<Rightarrow> 'a::field) \<Rightarrow> (nat \<Rightarrow> 'a) \<Rightarrow> nat \<Rightarrow> nat \<Rightarrow> 'a" where
  "cauchy_u x y s i = (\<Prod>q < s. (x i - x q) / (x i - y q))"

definition cauchy_v :: "(nat \<Rightarrow> 'a::field) \<Rightarrow> (nat \<Rightarrow> 'a) \<Rightarrow> (nat \<Rightarrow> 'a) \<Rightarrow> nat \<Rightarrow> nat \<Rightarrow> 'a" where
  "cauchy_v x y v s t = v t * (\<Prod>q < s. (y q - y t) / (x q - y t))"

section \<open>The blocks supplied to the decoder\<close>

text \<open>
  What a sender and a lossy transport hand to the decoder. A supplied block holds the
  original of its index when the index is an original index, and otherwise the recovery
  block of its row. The supplied blocks are as many as the original count, their indices
  are distinct and below the sum of the two counts.
\<close>

definition supplied_block ::
  "EncoderParams \<Rightarrow> DataBlock list \<Rightarrow> uint8 list \<Rightarrow> DataBlock \<Rightarrow> bool" where
  "supplied_block params originals recoveryBlocks b \<longleftrightarrow>
     Block b = (if is_original params b then Block (originals ! unat (Index b))
                else recovery_slice params recoveryBlocks (recovery_row params b))"

definition supplied ::
  "EncoderParams \<Rightarrow> DataBlock list \<Rightarrow> uint8 list \<Rightarrow> DataBlock list \<Rightarrow> bool" where
  "supplied params originals recoveryBlocks blocks \<longleftrightarrow>
     int (length blocks) = OriginalCount params \<and>
     distinct (map Index blocks) \<and>
     list_all (\<lambda>b. uint (Index b) < OriginalCount params + RecoveryCount params) blocks \<and>
     list_all (supplied_block params originals recoveryBlocks) blocks"

text \<open>
  A stripe: valid parameters, an assignment that meets the disjointness requirement,
  originals of the block size, the recovery blocks that \<open>Encode\<close> returns for them, and
  blocks supplied from both.
\<close>

definition stripe ::
  "(nat \<Rightarrow> uint8) \<Rightarrow> EncoderParams \<Rightarrow> DataBlock list \<Rightarrow> uint8 list \<Rightarrow> DataBlock list \<Rightarrow> bool" where
  "stripe X params originals recoveryBlocks blocks \<longleftrightarrow>
     valid_params params \<and> disjoint_assignment params X \<and>
     int (length originals) = OriginalCount params \<and>
     list_all (\<lambda>b. length (Block b) = nat (BlockBytes params)) originals \<and>
     Encode X params originals = Inr recoveryBlocks \<and>
     supplied params originals recoveryBlocks blocks"

section \<open>Properties of the scalar operations\<close>

lemma gf256_add_xor: "gf256_add x y = x XOR y"
  unfolding gf256_add_def
  by (rule bit_word_eqI) (auto simp add: bit_simps)

lemma unat_uint8_less: "unat (x :: uint8) < 256"
  using unsigned_less [of x, where 'a = nat] by simp

lemma table_index_eq: "table_index x y = 256 * unat y + unat x"
proof -
  have uy: "unat (ucast y :: 32 word) = unat y"
    using unat_uint8_less [of y] by (simp add: unsigned_ucast_eq take_bit_nat_eq_self)
  have "unat (push_bit 8 (ucast y :: 32 word)) = 256 * unat y"
    using unat_uint8_less [of y] by (simp add: push_bit_eq_mult unat_word_ariths uy)
  moreover have "unat (ucast x :: 32 word) = unat x"
    using unat_uint8_less [of x] by (simp add: unsigned_ucast_eq take_bit_nat_eq_self)
  moreover have "256 * unat y + unat x < 2 ^ 32"
    using unat_uint8_less [of x] unat_uint8_less [of y] by simp
  ultimately show ?thesis
    unfolding table_index_def by (simp add: unat_word_ariths)
qed

lemma table_index_bound: "table_index x y < 256 * 256"
  using unat_uint8_less [of x] unat_uint8_less [of y] by (simp add: table_index_eq)

text \<open>
  C10. \<open>gf256_add\<close> is commutative: for every pair of bytes, adding \<open>x\<close> to \<open>y\<close> gives
  the byte that adding \<open>y\<close> to \<open>x\<close> gives.
\<close>

theorem gf256_add_commute: "gf256_add x y = gf256_add y x"
  by (simp add: gf256_add_xor xor.commute)

text \<open>
  C8. \<open>gf256_div\<close> never reads outside its table: for every pair of bytes, the divisor 0
  included, the index \<^verbatim>\<open>(y << 8) + x\<close> is below the 256 * 256 entries of the quotient
  table, so the read returns the byte stored there. Which byte that is for the divisor 0
  is whatever the table holds.
\<close>

theorem gf256_div_total:
  assumes "gf256_ctx_sized ctx"
  shows "table_index x y < length (GF256_DIV_TABLE ctx) \<and>
         gf256_div ctx x y = Some (GF256_DIV_TABLE ctx ! table_index x y)"
  using assms table_index_bound [of x y]
  by (simp add: gf256_ctx_sized_def gf256_div_def table_read_def)

theorem gf256_div_total_witness:
  "gf256_ctx_sized \<lparr>GF256_MUL_TABLE = replicate (256 * 256) 0,
      GF256_DIV_TABLE = replicate (256 * 256) 7,
      GF256_INV_TABLE = replicate 256 0, GF256_SQR_TABLE = replicate 256 0\<rparr> \<and>
   gf256_div \<lparr>GF256_MUL_TABLE = replicate (256 * 256) 0,
      GF256_DIV_TABLE = replicate (256 * 256) 7,
      GF256_INV_TABLE = replicate 256 0, GF256_SQR_TABLE = replicate 256 0\<rparr> 255 0 = Some 7"
proof -
  let ?ctx = "\<lparr>GF256_MUL_TABLE = replicate (256 * 256) (0 :: uint8),
      GF256_DIV_TABLE = replicate (256 * 256) (7 :: uint8),
      GF256_INV_TABLE = replicate 256 (0 :: uint8),
      GF256_SQR_TABLE = replicate 256 (0 :: uint8)\<rparr>"
  have sized: "gf256_ctx_sized ?ctx"
    by (simp add: gf256_ctx_sized_def)
  from gf256_div_total [OF sized, of 255 0] show ?thesis
    using sized by simp
qed

section \<open>Powers of the primitive element\<close>

lemma gf256_next_alt: "gf256_next b = (if bit b 7 then push_bit 1 b XOR 0x1D else push_bit 1 b)"
proof -
  have b8: "bit (push_bit 1 (ucast b :: 32 word)) 8 = bit b 7"
    by (simp only: bit_push_bit_iff bit_ucast_iff) (simp add: bit_simps)
  have p: "(ucast (push_bit 1 (ucast b :: 32 word)) :: uint8) = push_bit 1 b"
    by (rule bit_word_eqI) (simp only: bit_push_bit_iff bit_ucast_iff, auto simp add: bit_simps)
  have q: "(ucast (push_bit 1 (ucast b :: 32 word) XOR 0x11D) :: uint8) = push_bit 1 b XOR 0x1D"
  proof -
    have "(ucast (0x11D :: 32 word) :: uint8) = 0x1D" by simp
    then show ?thesis by (simp only: unsigned_xor_eq p)
  qed
  show ?thesis
    unfolding gf256_next_def gf256_poly_def Let_def b8
    using p q by (simp only: if_distrib [of ucast] split: if_splits)
qed

lemma all_less_numeral:
  "(\<forall>n<numeral k. P n) \<longleftrightarrow> P (pred_numeral k) \<and> (\<forall>n<pred_numeral k. P n)"
  by (simp add: numeral_eq_Suc less_Suc_eq) blast

lemma uint8_all: "(\<forall>b :: uint8. P b) \<longleftrightarrow> (\<forall>n<256. P (of_nat n))"
proof
  assume r: "\<forall>n<256. P (of_nat n)"
  show "\<forall>b. P b"
  proof
    fix b :: uint8
    from r unat_uint8_less [of b] have "P (of_nat (unat b))" by blast
    then show "P b" by simp
  qed
qed simp

lemma gf256_next_inverse:
  "\<exists>g. \<forall>b. g (gf256_next b) = b"
proof -
  define g :: "uint8 \<Rightarrow> uint8"
    where "g c = (if bit c 0 then drop_bit 1 (c XOR 0x1D) OR 0x80 else drop_bit 1 c)" for c
  have "\<forall>b. g (gf256_next b) = b"
    unfolding uint8_all by (simp add: all_less_numeral gf256_next_alt g_def)
  then show ?thesis by blast
qed

lemma gf256_next_inj: "gf256_next a = gf256_next b \<Longrightarrow> a = b"
proof -
  assume eq: "gf256_next a = gf256_next b"
  from gf256_next_inverse obtain g where g: "\<And>b. g (gf256_next b) = b" by blast
  from eq have "g (gf256_next a) = g (gf256_next b)" by (rule arg_cong)
  then show "a = b" by (simp only: g)
qed

lemma gf256_next_0: "gf256_next 0 = 0"
  by (simp add: gf256_next_alt)

lemma gf256_next_eq_0: "gf256_next b = 0 \<longleftrightarrow> b = 0"
  using gf256_next_inj [of b 0] by (auto simp add: gf256_next_0)

lemma gf256_exp_0: "gf256_exp 0 = 1"
  by (simp add: gf256_exp_def)

lemma gf256_exp_Suc: "gf256_exp (Suc n) = gf256_next (gf256_exp n)"
  by (simp add: gf256_exp_def)

lemma gf256_exp_nonzero: "gf256_exp n \<noteq> 0"
  by (induction n) (simp_all add: gf256_exp_0 gf256_exp_Suc gf256_next_eq_0)

lemma gf256_exp_add: "gf256_exp (a + b) = (gf256_next ^^ a) (gf256_exp b)"
  by (simp add: gf256_exp_def funpow_add)

lemma funpow_numeral_step: "(f ^^ numeral k) x = (f ^^ pred_numeral k) (f x)"
  by (simp add: numeral_eq_Suc funpow_swap1)

lemma gf256_exp_255: "gf256_exp 255 = 1"
  unfolding gf256_exp_def by (simp add: funpow_numeral_step gf256_next_alt)

lemma gf256_exp_85: "gf256_exp 85 \<noteq> 1"
  unfolding gf256_exp_def by (simp add: funpow_numeral_step gf256_next_alt)

lemma gf256_exp_51: "gf256_exp 51 \<noteq> 1"
  unfolding gf256_exp_def by (simp add: funpow_numeral_step gf256_next_alt)

lemma gf256_exp_15: "gf256_exp 15 \<noteq> 1"
  unfolding gf256_exp_def by (simp add: funpow_numeral_step gf256_next_alt)

lemma gf256_exp_add_period: "gf256_exp b = 1 \<Longrightarrow> gf256_exp (a + b) = gf256_exp a"
  by (simp add: gf256_exp_add) (simp add: gf256_exp_def)

lemma gf256_exp_mult_period: "gf256_exp b = 1 \<Longrightarrow> gf256_exp (q * b) = 1"
proof (induction q)
  case 0
  then show ?case by (simp add: gf256_exp_0)
next
  case (Suc q)
  then have "gf256_exp (q * b + b) = gf256_exp (q * b)"
    by (intro gf256_exp_add_period) simp
  with Suc show ?case by (simp add: add.commute)
qed

lemma gf256_exp_mod_period:
  assumes "gf256_exp b = 1"
  shows "gf256_exp (a mod b) = gf256_exp a"
proof -
  have "gf256_exp (a mod b + a div b * b) = gf256_exp (a mod b)"
    by (intro gf256_exp_add_period gf256_exp_mult_period assms)
  then show ?thesis by simp
qed

lemma gf256_exp_mod_255: "gf256_exp (a mod 255) = gf256_exp a"
  by (rule gf256_exp_mod_period) (rule gf256_exp_255)

lemma gf256_exp_cancel: "gf256_exp a = gf256_exp b \<Longrightarrow> a \<le> b \<Longrightarrow> gf256_exp (b - a) = 1"
proof (induction a arbitrary: b)
  case 0
  then show ?case by (simp add: gf256_exp_0)
next
  case (Suc a)
  then obtain b' where b: "b = Suc b'" by (cases b) simp_all
  with Suc.prems have "gf256_exp a = gf256_exp b'"
    by (auto simp add: gf256_exp_Suc dest: gf256_next_inj)
  with Suc b show ?case by simp
qed

lemma gf256_exp_gcd: "gf256_exp a = 1 \<Longrightarrow> gf256_exp b = 1 \<Longrightarrow> gf256_exp (gcd a b) = 1"
proof (induction a b rule: gcd_nat_induct)
  case (step m n)
  then show ?case
    by (simp add: gcd_red_nat [of m n] gf256_exp_mod_period gcd.commute)
qed simp

lemma proper_divisors_255:
  "\<forall>g<255. g dvd 255 \<longrightarrow> g dvd 85 \<or> g dvd 51 \<or> g dvd (15::nat)"
  by (simp add: all_less_numeral)

lemma gf256_exp_order:
  assumes "gf256_exp d = 1" and "0 < d"
  shows "255 \<le> d"
proof (rule ccontr)
  assume "\<not> 255 \<le> d"
  define g where "g = gcd d 255"
  have g1: "gf256_exp g = 1"
    unfolding g_def by (rule gf256_exp_gcd) (simp_all add: assms gf256_exp_255)
  have "g dvd d" "g dvd 255" by (simp_all add: g_def)
  with \<open>0 < d\<close> \<open>\<not> 255 \<le> d\<close> have "g < 255"
    using dvd_imp_le [of g d] by simp
  with \<open>g dvd 255\<close> proper_divisors_255 have "g dvd 85 \<or> g dvd 51 \<or> g dvd 15"
    by blast
  then obtain n where n: "g dvd n" "n = 85 \<or> n = 51 \<or> n = 15"
    by blast
  then obtain q where "n = q * g" by (auto simp add: dvd_def mult.commute)
  with g1 have "gf256_exp n = 1" by (simp add: gf256_exp_mult_period)
  with n(2) show False
    using gf256_exp_85 gf256_exp_51 gf256_exp_15 by auto
qed

lemma gf256_exp_inj: "a < 255 \<Longrightarrow> b < 255 \<Longrightarrow> gf256_exp a = gf256_exp b \<Longrightarrow> a = b"
proof (induction a b rule: linorder_wlog)
  case (le a b)
  then have "gf256_exp (b - a) = 1" by (simp add: gf256_exp_cancel)
  with gf256_exp_order [of "b - a"] le show ?case by (cases "a = b") auto
qed auto

lemma gf256_exp_image: "gf256_exp ` {..<255} = - {0}"
proof (rule card_subset_eq)
  show "finite (- {0 :: uint8})" by simp
  show "gf256_exp ` {..<255} \<subseteq> - {0}" by (auto simp add: gf256_exp_nonzero)
  have "inj_on gf256_exp {..<255}"
    by (rule inj_onI) (simp add: gf256_exp_inj)
  then have "card (gf256_exp ` {..<255}) = 255" by (simp add: card_image)
  moreover have "card (- {0 :: uint8}) = 255"
    by (simp add: Compl_eq_Diff_UNIV card_word)
  ultimately show "card (gf256_exp ` {..<255}) = card (- {0 :: uint8})" by simp
qed

lemma gf256_exp_surj: "x \<noteq> 0 \<Longrightarrow> \<exists>n<255. gf256_exp n = x"
proof -
  assume "x \<noteq> 0"
  then have "x \<in> gf256_exp ` {..<255}" by (simp add: gf256_exp_image)
  then show ?thesis by auto
qed

lemma gf256_log_search_found:
  "(gf256_next ^^ m) p = x \<Longrightarrow> m < fuel \<Longrightarrow> (\<And>i. i < m \<Longrightarrow> (gf256_next ^^ i) p \<noteq> x)
     \<Longrightarrow> gf256_log_search fuel p x = m"
proof (induction fuel arbitrary: p m)
  case 0
  then show ?case by simp
next
  case (Suc fuel)
  show ?case
  proof (cases m)
    case 0
    with Suc.prems show ?thesis by simp
  next
    case (Suc m')
    from Suc.prems(3) [of 0] Suc have ne: "p \<noteq> x" by simp
    have "gf256_log_search fuel (gf256_next p) x = m'"
    proof (rule Suc.IH)
      show "(gf256_next ^^ m') (gf256_next p) = x"
        using Suc.prems(1) Suc by (simp add: funpow_swap1)
      show "m' < fuel" using Suc.prems(2) Suc by simp
      show "(gf256_next ^^ i) (gf256_next p) \<noteq> x" if "i < m'" for i
        using Suc.prems(3) [of "Suc i"] that Suc by (simp add: funpow_swap1)
    qed
    with ne Suc show ?thesis by simp
  qed
qed

lemma gf256_log_exp: "n < 255 \<Longrightarrow> gf256_log (gf256_exp n) = n"
  unfolding gf256_log_def
proof (rule gf256_log_search_found)
  show "(gf256_next ^^ n) 1 = gf256_exp n" by (simp add: gf256_exp_def)
  show "(gf256_next ^^ i) 1 \<noteq> gf256_exp n" if "i < n" "n < 255" for i
    using gf256_exp_inj [of i n] that by (auto simp add: gf256_exp_def)
qed

lemma gf256_log_exp_mod: "gf256_log (gf256_exp n) = n mod 255"
  using gf256_log_exp [of "n mod 255"] by (simp add: gf256_exp_mod_255)

lemma gf256_exp_log: "x \<noteq> 0 \<Longrightarrow> gf256_exp (gf256_log x) = x"
  using gf256_exp_surj [of x] by (auto simp add: gf256_log_exp)

lemma gf256_log_less: "x \<noteq> 0 \<Longrightarrow> gf256_log x < 255"
  using gf256_exp_surj [of x] by (auto simp add: gf256_log_exp)

lemma gf256_exp_cong: "a mod 255 = b mod 255 \<Longrightarrow> gf256_exp a = gf256_exp b"
  by (metis gf256_exp_mod_255)

lemma gf256_mul_entry_exp: "gf256_mul_entry (gf256_exp a) (gf256_exp b) = gf256_exp (a + b)"
  by (simp add: gf256_mul_entry_def gf256_exp_nonzero gf256_log_exp_mod)
    (rule gf256_exp_cong, simp add: mod_add_eq)

lemma gf256_div_entry_exp:
  assumes "b < 255"
  shows "gf256_div_entry (gf256_exp a) (gf256_exp b) = gf256_exp (a + (255 - b))"
proof -
  have "gf256_exp (a mod 255 + (255 - b)) = gf256_exp (a + (255 - b))"
    by (rule gf256_exp_cong) (simp add: mod_add_left_eq)
  moreover have "a mod 255 + 255 - b mod 255 = a mod 255 + (255 - b)"
    using assms by simp
  ultimately show ?thesis
    by (simp only: gf256_div_entry_def gf256_exp_nonzero gf256_log_exp_mod) simp
qed

lemma gf256_div_mul_entry:
  assumes "y \<noteq> 0"
  shows "gf256_div_entry (gf256_mul_entry x y) y = x"
proof (cases "x = 0")
  case True
  then show ?thesis by (simp add: gf256_mul_entry_def gf256_div_entry_def)
next
  case False
  from gf256_exp_surj [OF False] obtain a where a: "a < 255" "x = gf256_exp a" by auto
  from gf256_exp_surj [OF assms] obtain b where b: "b < 255" "y = gf256_exp b" by auto
  have "gf256_exp (a + b + (255 - b)) = gf256_exp (a + 255)"
    using b(1) by simp
  also have "\<dots> = gf256_exp a"
    by (rule gf256_exp_add_period) (rule gf256_exp_255)
  finally show ?thesis
    by (simp add: a b gf256_mul_entry_exp gf256_div_entry_exp)
qed

section \<open>The initialised tables\<close>

lemma gf256_init_sized: "gf256_ctx_sized gf256_init"
  by (simp add: gf256_ctx_sized_def gf256_init_def)

lemma gf256_mul_init: "gf256_mul gf256_init x y = Some (gf256_mul_entry x y)"
  using table_index_bound [of x y]
  by (simp add: gf256_mul_def table_read_def gf256_init_def del: upt_rec_numeral)
    (use unat_uint8_less [of x] in \<open>simp add: table_index_eq\<close>)

lemma gf256_div_init: "gf256_div gf256_init x y = Some (gf256_div_entry x y)"
  using table_index_bound [of x y]
  by (simp add: gf256_div_def table_read_def gf256_init_def del: upt_rec_numeral)
    (use unat_uint8_less [of x] in \<open>simp add: table_index_eq\<close>)

lemma gf256_inv_table_init: "GF256_INV_TABLE gf256_init ! unat x = gf256_inv_entry x"
  using unat_uint8_less [of x] by (simp add: gf256_init_def del: upt_rec_numeral)

lemma gf256_log_1: "gf256_log 1 = 0"
  using gf256_log_exp [of 0] by (simp add: gf256_exp_0)

lemma gf256_mul_entry_1: "gf256_mul_entry b 1 = b"
  by (simp add: gf256_mul_entry_def gf256_log_1 gf256_exp_log)

lemma gf256_inv_entry_1: "gf256_inv_entry 1 = 1"
  by (simp add: gf256_inv_entry_def gf256_div_entry_def gf256_log_1 gf256_exp_255)

text \<open>
  C7. Division inverts multiplication: with the tables of the initialised context, for
  every byte \<open>x\<close> and every byte \<open>y\<close> other than 0, \<open>gf256_mul\<close> returns a product and
  \<open>gf256_div\<close> of that product by \<open>y\<close> returns \<open>x\<close>.
\<close>

theorem gf256_div_mul:
  assumes "y \<noteq> 0"
  shows "\<exists>p. gf256_mul gf256_init x y = Some p \<and> gf256_div gf256_init p y = Some x"
  using assms by (simp add: gf256_mul_init gf256_div_init gf256_div_mul_entry)

theorem gf256_div_mul_witness:
  "(3 :: uint8) \<noteq> 0 \<and>
   (\<exists>p. gf256_mul gf256_init 200 3 = Some p \<and> gf256_div gf256_init p 3 = Some 200)"
proof -
  have h: "(3 :: uint8) \<noteq> 0" by simp
  from gf256_div_mul [OF h, of 200] show ?thesis using h by simp
qed

text \<open>
  C3. With the tables of the initialised context, for every byte \<open>y\<close> and every byte
  count, \<open>gf256_div_mem\<close> returns what \<open>gf256_mul_mem\<close> returns for the multiplier
  \<^verbatim>\<open>INV[y]\<close>; and for \<open>y = 1\<close> the result is a plain copy: the first bytes of the buffer
  \<open>z\<close>, as many as the count, are those of \<open>x\<close>, and the rest of \<open>z\<close> is as it was.
\<close>

theorem gf256_div_mem_is_mul_mem:
  "gf256_div_mem gf256_init vz vx y bytes
     = Some (gf256_mul_mem vz vx (GF256_INV_TABLE gf256_init ! unat y) bytes) \<and>
   gf256_div_mem gf256_init vz vx 1 bytes = Some (take (nat bytes) vx @ drop (nat bytes) vz)"
proof -
  have len: "table_read (GF256_INV_TABLE gf256_init) (unat y) = Some (gf256_inv_entry y)"
    using unat_uint8_less [of y] gf256_init_sized
    by (simp add: table_read_def gf256_ctx_sized_def gf256_inv_table_init)
  have "gf256_div_mem gf256_init vz vx y bytes
     = Some (gf256_mul_mem vz vx (GF256_INV_TABLE gf256_init ! unat y) bytes)"
    by (simp add: gf256_div_mem_def len gf256_inv_table_init gf256_inv_entry_1)
  moreover have "gf256_div_mem gf256_init vz vx 1 bytes
     = Some (take (nat bytes) vx @ drop (nat bytes) vz)"
    by (simp add: gf256_div_mem_def gf256_mul_mem_def gf256_mul_entry_1)
  ultimately show ?thesis by simp
qed

section \<open>Properties of the block indices\<close>

text \<open>
  C9. For valid parameters and a recovery block number from 0 up to, not including, the
  recovery count, \<open>GetRecoveryBlockIndex\<close> returns the original count plus that number,
  and the sum is at most 255, so the conversion to a byte keeps it.
\<close>

theorem GetRecoveryBlockIndex_exact:
  assumes "valid_params params"
    and "0 \<le> i" and "i < RecoveryCount params"
  shows "\<exists>b. GetRecoveryBlockIndex params i = Some b \<and>
             uint b = OriginalCount params + i \<and> OriginalCount params + i \<le> 255"
proof -
  have range: "0 \<le> OriginalCount params + i" "OriginalCount params + i \<le> 255"
    using assms by (simp_all add: valid_params_def)
  then have "uint (word_of_int (OriginalCount params + i) :: uint8) = OriginalCount params + i"
    by (simp only: uint_word_of_int_eq) (simp add: take_bit_int_eq_self)
  with assms range show ?thesis
    by (simp add: GetRecoveryBlockIndex_def)
qed

theorem GetRecoveryBlockIndex_exact_witness:
  "valid_params \<lparr>OriginalCount = 200, RecoveryCount = 56, BlockBytes = 4\<rparr> \<and>
   (\<exists>b. GetRecoveryBlockIndex \<lparr>OriginalCount = 200, RecoveryCount = 56, BlockBytes = 4\<rparr> 55
          = Some b \<and> uint b = 255)"
proof -
  have v: "valid_params \<lparr>OriginalCount = 200, RecoveryCount = 56, BlockBytes = 4\<rparr>"
    by (simp add: valid_params_def)
  from GetRecoveryBlockIndex_exact [OF v, of 55] show ?thesis
    using v by simp
qed

section \<open>The first recovery block\<close>

lemma length_gf256_add_mem:
  "length vx \<le> length vy \<Longrightarrow> length (gf256_add_mem vx vy bytes) = length vx"
  by (simp add: gf256_add_mem_def)

lemma nth_gf256_add_mem:
  "i < nat bytes \<Longrightarrow> i < length vx \<Longrightarrow> i < length vy
     \<Longrightarrow> gf256_add_mem vx vy bytes ! i = vx ! i XOR vy ! i"
  by (simp add: gf256_add_mem_def nth_append gf256_add_xor)

lemma fold_gf256_add_mem:
  assumes "list_all (\<lambda>b. length (Block b) = n) bs" and "length acc = n"
  shows "length (fold (\<lambda>b acc. gf256_add_mem acc (Block b) bytes) bs acc) = n \<and>
         (\<forall>i. i < n \<longrightarrow> i < nat bytes \<longrightarrow>
            fold (\<lambda>b acc. gf256_add_mem acc (Block b) bytes) bs acc ! i
              = acc ! i XOR foldr (XOR) (map (\<lambda>b. Block b ! i) bs) 0)"
  using assms
proof (induction bs arbitrary: acc)
  case Nil
  then show ?case by simp
next
  case (Cons b bs)
  let ?acc = "gf256_add_mem acc (Block b) bytes"
  have len: "length ?acc = n"
    using Cons.prems by (simp add: length_gf256_add_mem)
  have rest: "list_all (\<lambda>b. length (Block b) = n) bs"
    using Cons.prems by simp
  from Cons.IH [OF rest len] Cons.prems show ?case
    by (simp add: nth_gf256_add_mem xor.assoc)
qed

lemma first_block_xor:
  assumes "list_all (\<lambda>b. length (Block b) = nat (BlockBytes params)) originals"
    and "originals \<noteq> []"
  shows "length (EncodeOneDataBlock X params originals (OriginalCount params))
           = nat (BlockBytes params) \<and>
         (\<forall>i<nat (BlockBytes params).
            EncodeOneDataBlock X params originals (OriginalCount params) ! i
              = foldr (XOR) (map (\<lambda>b. Block b ! i) originals) 0)"
proof -
  from assms(2) obtain o0 rest where o: "originals = o0 # rest" by (cases originals) auto
  let ?n = "nat (BlockBytes params)"
  have "list_all (\<lambda>b. length (Block b) = ?n) rest" "length (take ?n (Block o0)) = ?n"
    using assms(1) o by simp_all
  from fold_gf256_add_mem [OF this, of "BlockBytes params"] assms(1) show ?thesis
    by (simp add: EncodeOneDataBlock_def o)
qed

lemma Encode_first_slice:
  assumes "valid_params params" and "int (length originals) = OriginalCount params"
    and "length (EncodeOneDataBlock X params originals (OriginalCount params))
           = nat (BlockBytes params)"
  shows "\<exists>rec. Encode X params originals = Inr rec \<and>
           recovery_slice params rec 0
             = EncodeOneDataBlock X params originals (OriginalCount params)"
proof -
  from assms(1) have "0 < nat (RecoveryCount params)" by (simp add: valid_params_def)
  then have "[0..<nat (RecoveryCount params)] = 0 # [1..<nat (RecoveryCount params)]"
    by (simp add: upt_conv_Cons)
  with assms show ?thesis
    by (simp add: Encode_def recovery_slice_def)
qed

text \<open>
  C4, as amended. The first recovery block that \<open>Encode\<close> produces is the XOR of all
  original blocks: for valid parameters and as many originals as the original count, each
  of the block size, every byte of the block is the XOR of the bytes of the originals at
  its position. For three originals [01,02,03,04], [10,20,30,40] and [A0,B0,C0,D0] of four
  bytes the block is [B1, 92, F3, 94].
\<close>

theorem first_recovery_block_is_xor:
  assumes "valid_params params" and "int (length originals) = OriginalCount params"
    and "list_all (\<lambda>b. length (Block b) = nat (BlockBytes params)) originals"
  shows "(\<exists>rec. Encode X params originals = Inr rec \<and>
            length (recovery_slice params rec 0) = nat (BlockBytes params) \<and>
            (\<forall>i<nat (BlockBytes params).
               recovery_slice params rec 0 ! i
                 = foldr (XOR) (map (\<lambda>b. Block b ! i) originals) 0)) \<and>
         Encode X \<lparr>OriginalCount = 3, RecoveryCount = 1, BlockBytes = 4\<rparr>
           [\<lparr>Block = [0x01, 0x02, 0x03, 0x04], Index = 0\<rparr>,
            \<lparr>Block = [0x10, 0x20, 0x30, 0x40], Index = 1\<rparr>,
            \<lparr>Block = [0xA0, 0xB0, 0xC0, 0xD0], Index = 2\<rparr>]
           = Inr [0xB1, 0x92, 0xF3, 0x94]"
proof
  from assms(1,2) have "originals \<noteq> []" by (auto simp add: valid_params_def)
  from first_block_xor [OF assms(3) this, of X]
    Encode_first_slice [OF assms(1,2), of X]
  show "\<exists>rec. Encode X params originals = Inr rec \<and>
            length (recovery_slice params rec 0) = nat (BlockBytes params) \<and>
            (\<forall>i<nat (BlockBytes params).
               recovery_slice params rec 0 ! i
                 = foldr (XOR) (map (\<lambda>b. Block b ! i) originals) 0)"
    by auto
  show "Encode X \<lparr>OriginalCount = 3, RecoveryCount = 1, BlockBytes = 4\<rparr>
           [\<lparr>Block = [0x01, 0x02, 0x03, 0x04], Index = 0\<rparr>,
            \<lparr>Block = [0x10, 0x20, 0x30, 0x40], Index = 1\<rparr>,
            \<lparr>Block = [0xA0, 0xB0, 0xC0, 0xD0], Index = 2\<rparr>]
           = Inr [0xB1, 0x92, 0xF3, 0x94]"
    by (simp add: Encode_def valid_params_def EncodeOneDataBlock_def gf256_add_mem_def
        gf256_add_xor)
qed

theorem first_recovery_block_is_xor_witness:
  "valid_params \<lparr>OriginalCount = 2, RecoveryCount = 1, BlockBytes = 2\<rparr> \<and>
   (\<exists>rec. Encode (spec_assignment \<lparr>OriginalCount = 2, RecoveryCount = 1, BlockBytes = 2\<rparr>)
             \<lparr>OriginalCount = 2, RecoveryCount = 1, BlockBytes = 2\<rparr>
             [\<lparr>Block = [0x0F, 0x35], Index = 0\<rparr>, \<lparr>Block = [0xF1, 0x36], Index = 1\<rparr>]
           = Inr rec \<and>
          recovery_slice \<lparr>OriginalCount = 2, RecoveryCount = 1, BlockBytes = 2\<rparr> rec 0 ! 0 = 0xFE \<and>
          recovery_slice \<lparr>OriginalCount = 2, RecoveryCount = 1, BlockBytes = 2\<rparr> rec 0 ! 1 = 0x03)"
proof -
  let ?p = "\<lparr>OriginalCount = 2, RecoveryCount = 1, BlockBytes = 2\<rparr>"
  let ?os = "[\<lparr>Block = [0x0F, 0x35], Index = 0\<rparr>, \<lparr>Block = [0xF1, 0x36 :: uint8], Index = 1 :: uint8\<rparr>]"
  have v: "valid_params ?p" by (simp add: valid_params_def)
  have l: "int (length ?os) = OriginalCount ?p" by simp
  have b: "list_all (\<lambda>b. length (Block b) = nat (BlockBytes ?p)) ?os" by simp
  from first_recovery_block_is_xor [OF v l b, of "spec_assignment ?p"]
  obtain rec where rec: "Encode (spec_assignment ?p) ?p ?os = Inr rec"
    and x: "\<forall>i<nat (BlockBytes ?p). recovery_slice ?p rec 0 ! i
              = foldr (XOR) (map (\<lambda>b. Block b ! i) ?os) 0"
    by blast
  from x have "recovery_slice ?p rec 0 ! 0 = 0xFE" "recovery_slice ?p rec 0 ! 1 = 0x03"
    by simp_all
  with v rec show ?thesis by blast
qed

theorem first_recovery_block_example_counterexample:
  "Encode (spec_assignment \<lparr>OriginalCount = 3, RecoveryCount = 1, BlockBytes = 4\<rparr>)
     \<lparr>OriginalCount = 3, RecoveryCount = 1, BlockBytes = 4\<rparr>
     [\<lparr>Block = [0x01, 0x02, 0x03, 0x04], Index = 0\<rparr>,
      \<lparr>Block = [0x10, 0x20, 0x30, 0x40], Index = 1\<rparr>,
      \<lparr>Block = [0xA0, 0xB0, 0xC0, 0xD0], Index = 2\<rparr>]
     \<noteq> Inr [0xB1, 0x92, 0xF3, 0xD4]"
  by (simp add: Encode_def valid_params_def EncodeOneDataBlock_def gf256_add_mem_def
      gf256_add_xor)

section \<open>The partition of the decoder\<close>

lemma uint8_of_nat_inj: "i < 256 \<Longrightarrow> j < 256 \<Longrightarrow> (of_nat i :: uint8) = of_nat j \<Longrightarrow> i = j"
  by (simp add: word_of_nat_eq_iff take_bit_nat_eq_self)

lemma uint_uint8_of_nat: "i < 256 \<Longrightarrow> uint (of_nat i :: uint8) = int i"
  by (simp only: uint_nat unat_of_nat) simp

lemma distinct_original_indices:
  "n \<le> 256 \<Longrightarrow> distinct (map of_nat [0..<n] :: uint8 list)"
proof -
  assume "n \<le> 256"
  then have "inj_on (of_nat :: nat \<Rightarrow> uint8) (set [0..<n])"
    by (intro inj_onI uint8_of_nat_inj) auto
  then show ?thesis by (simp add: distinct_map)
qed

lemma length_recovery_positions:
  "length (filter (\<lambda>p. P (blocks ! p)) [0..<length blocks]) = length (filter P blocks)"
proof -
  have "filter P (map (nth blocks) [0..<length blocks])
          = map (nth blocks) (filter (P \<circ> nth blocks) [0..<length blocks])"
    by (rule filter_map)
  then have "length (filter P blocks) = length (filter (P \<circ> nth blocks) [0..<length blocks])"
    by (simp add: map_nth)
  then show ?thesis by (simp add: comp_def)
qed

text \<open>
  After the checks of \<open>Initialize\<close> the two counts agree: the blocks are as many as the
  originals and their indices differ, so each block with a recovery index stands for one
  original index that no block has.
\<close>

lemma erasures_eq_recoveries:
  assumes k: "0 \<le> OriginalCount params" "OriginalCount params \<le> 256"
    and len: "int (length blocks) = OriginalCount params"
    and dist: "distinct (map Index blocks)"
  shows "length (missing_originals params blocks) = length (supplied_recoveries params blocks)"
proof -
  let ?k = "nat (OriginalCount params)"
  let ?I = "set (map Index blocks)"
  let ?O = "set (map of_nat [0..<?k]) :: uint8 set"
  have k256: "?k \<le> 256" using k by simp
  have cardO: "card ?O = ?k"
    using distinct_card [OF distinct_original_indices [OF k256]] by simp
  have cardI: "card ?I = ?k"
    using distinct_card [OF dist] len by simp
  have orig: "is_original params b \<longleftrightarrow> Index b \<in> ?O" for b
  proof
    assume "is_original params b"
    then have lt: "uint (Index b) < OriginalCount params" by (simp add: is_original_def)
    with unat_eq_nat_uint [of "Index b"] uint_nonnegative [of "Index b"]
    have "unat (Index b) < ?k" by linarith
    moreover have "of_nat (unat (Index b)) = Index b" by simp
    ultimately show "Index b \<in> ?O" by (metis atLeast0LessThan imageI lessThan_iff set_map set_upt)
  next
    assume "Index b \<in> ?O"
    then obtain j where j: "j < ?k" "Index b = of_nat j" by auto
    with k256 have "uint (Index b) = int j" by (simp add: uint_uint8_of_nat)
    with j show "is_original params b" by (simp add: is_original_def)
  qed
  have "length (missing_originals params blocks) = card (?O - ?I)"
  proof -
    have "distinct (missing_originals params blocks)"
      unfolding missing_originals_def
      by (rule distinct_filter) (rule distinct_original_indices [OF k256])
    moreover have "set (missing_originals params blocks) = ?O - ?I"
      by (auto simp add: missing_originals_def)
    ultimately show ?thesis by (metis distinct_card)
  qed
  moreover have "length (supplied_recoveries params blocks) = card (?I - ?O)"
  proof -
    have d: "distinct (map Index (supplied_recoveries params blocks))"
      unfolding supplied_recoveries_def using dist by (simp add: distinct_map_filter)
    have "set (map Index (supplied_recoveries params blocks)) = ?I - ?O"
      by (auto simp add: supplied_recoveries_def orig)
    with distinct_card [OF d] show ?thesis by simp
  qed
  moreover have "card (?O - ?I) = card (?I - ?O)"
  proof -
    have "card (?O - ?I) = card ?O - card (?O \<inter> ?I)"
      by (rule card_Diff_subset_Int) simp
    moreover have "card (?I - ?O) = card ?I - card (?I \<inter> ?O)"
      by (rule card_Diff_subset_Int) simp
    moreover have "?I \<inter> ?O = ?O \<inter> ?I"
      by (rule Int_commute)
    ultimately show ?thesis using cardO cardI by simp
  qed
  ultimately show ?thesis by simp
qed

lemma Initialize_Inr:
  "Initialize params blocks = Inr dec \<Longrightarrow>
     valid_params params \<and> int (length blocks) = OriginalCount params \<and>
     list_all (\<lambda>b. uint (Index b) < OriginalCount params + RecoveryCount params) blocks \<and>
     distinct (map Index blocks) \<and>
     Params dec = params \<and>
     Recovery dec = recovery_positions params blocks \<and>
     Original dec = original_positions params blocks \<and>
     ErasuresIndices dec = missing_originals params blocks"
  by (auto simp add: Initialize_def split: if_splits)


lemma Initialize_counts:
  assumes "Initialize params blocks = Inr dec"
  shows "length (ErasuresIndices dec) = length (missing_originals params blocks)"
    and "length (Recovery dec) = length (supplied_recoveries params blocks)"
    and "length (missing_originals params blocks) = length (supplied_recoveries params blocks)"
proof -
  note init = Initialize_Inr [OF assms]
  show "length (ErasuresIndices dec) = length (missing_originals params blocks)"
    using init by simp
  show "length (Recovery dec) = length (supplied_recoveries params blocks)"
    using init length_recovery_positions [of "\<lambda>b. \<not> is_original params b" blocks]
    by (simp add: supplied_recoveries_def recovery_positions_def)
  show "length (missing_originals params blocks) = length (supplied_recoveries params blocks)"
    using init by (intro erasures_eq_recoveries) (simp_all add: valid_params_def)
qed



section \<open>Decoding without erasures\<close>

lemma no_erasures_all_original:
  assumes k: "0 \<le> OriginalCount params" "OriginalCount params \<le> 256"
    and len: "int (length blocks) = OriginalCount params"
    and none: "missing_originals params blocks = []"
  shows "distinct (map Index blocks) \<and> list_all (is_original params) blocks"
proof -
  let ?k = "nat (OriginalCount params)"
  let ?I = "set (map Index blocks)"
  let ?O = "set (map of_nat [0..<?k]) :: uint8 set"
  have k256: "?k \<le> 256" using k by simp
  have cardO: "card ?O = ?k"
    using distinct_card [OF distinct_original_indices [OF k256]] by simp
  have sub: "?O \<subseteq> ?I"
    using none by (auto simp add: missing_originals_def filter_empty_conv)
  have "card ?I \<le> length (map Index blocks)" by (rule card_length)
  then have le: "card ?I \<le> ?k" using len by simp
  from sub have "card ?O \<le> card ?I" by (intro card_mono) simp_all
  with le cardO have cardI: "card ?I = ?k" by simp
  then have "card ?I = length (map Index blocks)" using len by simp
  then have d: "distinct (map Index blocks)" by (rule card_distinct)
  from sub cardO cardI have eq: "?O = ?I"
    by (intro card_subset_eq) simp_all
  have "is_original params b" if "b \<in> set blocks" for b
  proof -
    from that eq have "Index b \<in> ?O" by auto
    then obtain j where j: "j < ?k" "Index b = of_nat j" by auto
    with k256 have "uint (Index b) = int j" by (simp add: uint_uint8_of_nat)
    with j show ?thesis by (simp add: is_original_def)
  qed
  with d show ?thesis by (simp add: list_all_iff)
qed

text \<open>
  C6. Decoding without erasures changes nothing: for valid parameters and as many blocks
  as the original count, when no original index is missing among the blocks, \<open>Decode\<close>
  returns the blocks as they were supplied, buffers and indices alike.
\<close>

theorem Decode_no_erasures:
  assumes "valid_params params" and "int (length blocks) = OriginalCount params"
    and "missing_originals params blocks = []"
  shows "Decode X params blocks = Inr blocks"
proof -
  from assms(1) have k: "0 \<le> OriginalCount params" "OriginalCount params \<le> 256"
    and r: "0 \<le> RecoveryCount params"
    by (simp_all add: valid_params_def)
  from no_erasures_all_original [OF k assms(2,3)]
  have d: "distinct (map Index blocks)" and o: "list_all (is_original params) blocks"
    by simp_all
  from o r have "list_all (\<lambda>b. uint (Index b) < OriginalCount params + RecoveryCount params) blocks"
    by (auto simp add: list_all_iff is_original_def)
  with assms d show ?thesis
    by (simp add: Decode_def Initialize_def)
qed

theorem Decode_no_erasures_witness:
  "valid_params \<lparr>OriginalCount = 3, RecoveryCount = 2, BlockBytes = 2\<rparr> \<and>
   missing_originals \<lparr>OriginalCount = 3, RecoveryCount = 2, BlockBytes = 2\<rparr>
     [\<lparr>Block = [1, 2], Index = 2\<rparr>, \<lparr>Block = [3, 4], Index = 0\<rparr>,
      \<lparr>Block = [5, 6], Index = 1\<rparr>] = [] \<and>
   Decode (spec_assignment \<lparr>OriginalCount = 3, RecoveryCount = 2, BlockBytes = 2\<rparr>)
     \<lparr>OriginalCount = 3, RecoveryCount = 2, BlockBytes = 2\<rparr>
     [\<lparr>Block = [1, 2], Index = 2\<rparr>, \<lparr>Block = [3, 4], Index = 0\<rparr>,
      \<lparr>Block = [5, 6], Index = 1\<rparr>]
   = Inr [\<lparr>Block = [1, 2], Index = 2\<rparr>, \<lparr>Block = [3, 4], Index = 0\<rparr>,
          \<lparr>Block = [5, 6], Index = 1\<rparr>]"
proof -
  let ?p = "\<lparr>OriginalCount = 3, RecoveryCount = 2, BlockBytes = 2\<rparr>"
  let ?bs = "[\<lparr>Block = [1, 2 :: uint8], Index = 2 :: uint8\<rparr>, \<lparr>Block = [3, 4], Index = 0\<rparr>,
      \<lparr>Block = [5, 6], Index = 1\<rparr>]"
  have v: "valid_params ?p" by (simp add: valid_params_def)
  have l: "int (length ?bs) = OriginalCount ?p" by simp
  have m: "missing_originals ?p ?bs = []"
    by (simp add: missing_originals_def upt_conv_Cons)
  from Decode_no_erasures [OF v l m, of "spec_assignment ?p"] v m show ?thesis by simp
qed

section \<open>The field laws\<close>

lemma gf256_next_xor: "gf256_next (a XOR b) = gf256_next a XOR gf256_next b"
  by (simp add: gf256_next_alt bit_xor_iff xor.assoc xor.left_commute xor.commute)

lemma gf256_next_funpow_xor:
  "(gf256_next ^^ n) (a XOR b) = (gf256_next ^^ n) a XOR (gf256_next ^^ n) b"
  by (induction n) (simp_all add: gf256_next_xor)

lemma gf256_next_funpow_0: "(gf256_next ^^ n) 0 = 0"
  by (induction n) (simp_all add: gf256_next_0)

lemma gf256_mul_entry_0: "gf256_mul_entry 0 y = 0" "gf256_mul_entry x 0 = 0"
  by (simp_all add: gf256_mul_entry_def)

lemma gf256_mul_entry_commute: "gf256_mul_entry x y = gf256_mul_entry y x"
  by (auto simp add: gf256_mul_entry_def add.commute)

lemma gf256_mul_entry_funpow: "gf256_mul_entry x (gf256_exp c) = (gf256_next ^^ c) x"
proof (cases "x = 0")
  case True
  then show ?thesis by (simp add: gf256_mul_entry_0 gf256_next_funpow_0)
next
  case False
  from gf256_exp_surj [OF False] obtain a where "x = gf256_exp a" by auto
  then show ?thesis
    using gf256_exp_add [of c a] by (simp add: gf256_mul_entry_exp add.commute)
qed

lemma gf256_mul_entry_xor:
  "gf256_mul_entry (x XOR y) z = gf256_mul_entry x z XOR gf256_mul_entry y z"
proof (cases "z = 0")
  case True
  then show ?thesis by (simp add: gf256_mul_entry_0)
next
  case False
  from gf256_exp_surj [OF False] obtain c where "z = gf256_exp c" by auto
  then show ?thesis by (simp add: gf256_mul_entry_funpow gf256_next_funpow_xor)
qed

lemma gf256_mul_entry_assoc:
  "gf256_mul_entry (gf256_mul_entry x y) z = gf256_mul_entry x (gf256_mul_entry y z)"
proof (cases "x = 0 \<or> y = 0 \<or> z = 0")
  case True
  then show ?thesis by (auto simp add: gf256_mul_entry_0)
next
  case False
  with gf256_exp_surj [of x] gf256_exp_surj [of y] gf256_exp_surj [of z]
  obtain a b c where "x = gf256_exp a" "y = gf256_exp b" "z = gf256_exp c" by auto
  then show ?thesis by (simp add: gf256_mul_entry_exp add.assoc)
qed

lemma gf256_inv_entry_exp: "a < 255 \<Longrightarrow> gf256_inv_entry (gf256_exp a) = gf256_exp (255 - a)"
  using gf256_div_entry_exp [of a 0] by (simp add: gf256_inv_entry_def gf256_exp_nonzero gf256_exp_0)

lemma gf256_inv_entry_mul: "x \<noteq> 0 \<Longrightarrow> gf256_mul_entry (gf256_inv_entry x) x = 1"
proof -
  assume "x \<noteq> 0"
  from gf256_exp_surj [OF this] obtain a where a: "a < 255" "x = gf256_exp a" by auto
  then show ?thesis
    by (simp add: gf256_inv_entry_exp gf256_mul_entry_exp gf256_exp_255)
qed

lemma gf256_div_entry_inv: "gf256_div_entry x y = gf256_mul_entry x (gf256_inv_entry y)"
proof (cases "x = 0 \<or> y = 0")
  case True
  then show ?thesis
    by (auto simp add: gf256_div_entry_def gf256_mul_entry_0 gf256_inv_entry_def)
next
  case False
  with gf256_exp_surj [of x] gf256_exp_surj [of y]
  obtain a b where "x = gf256_exp a" "b < 255" "y = gf256_exp b" by auto
  then show ?thesis
    by (simp add: gf256_div_entry_exp gf256_inv_entry_exp gf256_mul_entry_exp)
qed

instance gf256 :: field
proof
  fix a b c :: gf256
  show "a + b + c = a + (b + c)"
    by transfer (simp add: gf256_add_xor xor.assoc)
  show "a + b = b + a"
    by transfer (simp add: gf256_add_xor xor.commute)
  show "0 + a = a"
    by transfer (simp add: gf256_add_xor)
  show "- a + a = 0"
    by transfer (simp add: gf256_add_xor)
  show "a - b = a + - b"
    by transfer simp
  show "a * b * c = a * (b * c)"
    by transfer (rule gf256_mul_entry_assoc)
  show "a * b = b * a"
    by transfer (rule gf256_mul_entry_commute)
  show "1 * a = a"
    by transfer (simp add: gf256_mul_entry_commute [of 1] gf256_mul_entry_1)
  show "(a + b) * c = a * c + b * c"
    by transfer (simp add: gf256_add_xor gf256_mul_entry_xor)
  show "(0 :: gf256) \<noteq> 1"
    by transfer simp
  show "a \<noteq> 0 \<Longrightarrow> inverse a * a = 1"
    by transfer (rule gf256_inv_entry_mul)
  show "a / b = a * inverse b"
    by transfer (rule gf256_div_entry_inv)
  show "inverse (0 :: gf256) = 0"
    by transfer (simp add: gf256_inv_entry_def)
qed

lemma gf256_minus_eq_plus: "a - b = a + (b :: gf256)"
  by transfer simp

lemma gf256_uminus_eq: "- a = (a :: gf256)"
  by transfer simp

section \<open>The factors of elimination\<close>

lemma schur_row_zero:
  "(\<And>q. q < s \<Longrightarrow> schur A q q q \<noteq> 0) \<Longrightarrow> i < s \<Longrightarrow> schur A s i t = 0"
proof (induction s arbitrary: t)
  case 0
  then show ?case by simp
next
  case (Suc s)
  show ?case
  proof (cases "i = s")
    case True
    with Suc.prems(1) [of s] show ?thesis by simp
  next
    case False
    with Suc.prems have "i < s" by simp
    with Suc have "schur A s i t = 0" "schur A s i s = 0" by simp_all
    then show ?thesis by simp
  qed
qed

lemma schur_col_zero:
  "(\<And>q. q < s \<Longrightarrow> schur A q q q \<noteq> 0) \<Longrightarrow> t < s \<Longrightarrow> schur A s i t = 0"
proof (induction s arbitrary: i)
  case 0
  then show ?case by simp
next
  case (Suc s)
  show ?case
  proof (cases "t = s")
    case True
    with Suc.prems(1) [of s] show ?thesis by simp
  next
    case False
    with Suc.prems have "t < s" by simp
    with Suc have "schur A s i t = 0" "schur A s s t = 0" by simp_all
    then show ?thesis by simp
  qed
qed

lemma schur_telescope:
  assumes "\<And>q. q < n \<Longrightarrow> schur A q q q \<noteq> 0"
  shows "A i t = schur A n i t + (\<Sum>s<n. ldu_L A i s * ldu_D A s * ldu_U A s t)"
  using assms
proof (induction n)
  case 0
  then show ?case by simp
next
  case (Suc n)
  then have "schur A n n n \<noteq> 0" by simp
  then have "ldu_L A i n * ldu_D A n * ldu_U A n t
               = schur A n i n * schur A n n t / schur A n n n"
    by (simp add: ldu_L_def ldu_D_def ldu_U_def)
  moreover have "A i t = schur A n i t + (\<Sum>s<n. ldu_L A i s * ldu_D A s * ldu_U A s t)"
    using Suc by simp
  ultimately show ?case by simp

qed

lemma ldu_product:
  assumes "\<And>q. q < m \<Longrightarrow> ldu_D A q \<noteq> 0" and "i < m"
  shows "A i t = (\<Sum>s<m. ldu_L A i s * ldu_D A s * ldu_U A s t)"
proof -
  have piv: "\<And>q. q < m \<Longrightarrow> schur A q q q \<noteq> 0"
    using assms(1) by (simp add: ldu_D_def)
  from schur_row_zero [of m A i t] piv assms(2) have "schur A m i t = 0" by simp
  with schur_telescope [of m A i t] piv show ?thesis by simp
qed

lemma ldu_L_upper:
  assumes "\<And>q. q < s \<Longrightarrow> ldu_D A q \<noteq> 0" and "i < s"
  shows "ldu_L A i s = 0"
  using schur_row_zero [of s A i s] assms by (simp add: ldu_L_def ldu_D_def)

lemma ldu_L_diag: "ldu_D A s \<noteq> 0 \<Longrightarrow> ldu_L A s s = 1"
  by (simp add: ldu_L_def ldu_D_def)

lemma ldu_U_lower:
  assumes "\<And>q. q < s \<Longrightarrow> ldu_D A q \<noteq> 0" and "t < s"
  shows "ldu_U A s t = 0"
  using schur_col_zero [of s A t s] assms by (simp add: ldu_U_def ldu_D_def)

lemma ldu_U_diag: "ldu_D A s \<noteq> 0 \<Longrightarrow> ldu_U A s s = 1"
  by (simp add: ldu_U_def ldu_D_def)

section \<open>The solve\<close>

lemma sum_split_at:
  fixes f :: "nat \<Rightarrow> 'a::comm_ring_1"
  assumes "i < m"
  shows "(\<Sum>s<m. f s) = (\<Sum>s<i. f s) + f i + (\<Sum>s\<in>{i<..<m}. f s)"
proof -
  have "{..<m} = {..<i} \<union> ({i} \<union> {i<..<m})" using assms by auto
  moreover have "{..<i} \<inter> ({i} \<union> {i<..<m}) = {}" by auto
  ultimately have "(\<Sum>s<m. f s) = (\<Sum>s<i. f s) + (\<Sum>s\<in>{i} \<union> {i<..<m}. f s)"
    by (metis finite_Un finite_lessThan sum.union_disjoint)
  then show ?thesis by (simp add: add.assoc)
qed

lemma ldu_solve:
  fixes A :: "nat \<Rightarrow> nat \<Rightarrow> 'a::field"
  assumes piv: "\<And>s. s < m \<Longrightarrow> ldu_D A s \<noteq> 0"
    and b: "\<And>i. i < m \<Longrightarrow> b i = (\<Sum>t<m. A i t * x t)"
    and fw: "\<And>i. i < m \<Longrightarrow> yv i = b i - (\<Sum>j<i. ldu_L A i j * yv j)"
    and dv: "\<And>i. i < m \<Longrightarrow> z i = yv i / ldu_D A i"
    and bk: "\<And>i. i < m \<Longrightarrow> w i = z i - (\<Sum>j\<in>{i<..<m}. ldu_U A i j * w j)"
  shows "i < m \<Longrightarrow> w i = x i"
proof -
  define z0 where "z0 s = (\<Sum>t<m. ldu_U A s t * x t)" for s
  define y0 where "y0 s = ldu_D A s * z0 s" for s
  have b0: "b i = (\<Sum>s<m. ldu_L A i s * y0 s)" if "i < m" for i
  proof -
    have "b i = (\<Sum>t<m. (\<Sum>s<m. ldu_L A i s * ldu_D A s * ldu_U A s t) * x t)"
      using b [OF that] ldu_product [of m A i, OF piv that] by simp
    also have "\<dots> = (\<Sum>t<m. \<Sum>s<m. ldu_L A i s * ldu_D A s * ldu_U A s t * x t)"
      by (simp add: sum_distrib_right)
    also have "\<dots> = (\<Sum>s<m. \<Sum>t<m. ldu_L A i s * ldu_D A s * ldu_U A s t * x t)"
      by (rule sum.swap)
    also have "\<dots> = (\<Sum>s<m. ldu_L A i s * y0 s)"
      by (simp add: y0_def z0_def sum_distrib_left mult.assoc)
    finally show ?thesis .
  qed
  have b1: "b i = (\<Sum>s<i. ldu_L A i s * y0 s) + y0 i" if "i < m" for i
  proof -
    have "(\<Sum>s\<in>{i<..<m}. ldu_L A i s * y0 s) = 0"
    proof (rule sum.neutral, rule ballI)
      fix s assume "s \<in> {i<..<m}"
      then have "i < s" "s < m" by simp_all
      then have "ldu_L A i s = 0" by (intro ldu_L_upper piv) simp_all
      then show "ldu_L A i s * y0 s = 0" by simp
    qed
    with b0 [OF that] sum_split_at [OF that, of "\<lambda>s. ldu_L A i s * y0 s"]
      ldu_L_diag [OF piv [OF that]]
    show ?thesis by simp
  qed
  have y: "yv i = y0 i" if "i < m" for i
    using that
  proof (induction i rule: less_induct)
    case (less i)
    then have "(\<Sum>j<i. ldu_L A i j * yv j) = (\<Sum>j<i. ldu_L A i j * y0 j)"
      by (intro sum.cong) simp_all
    with fw [OF less.prems] b1 [OF less.prems] show ?case by simp
  qed
  have zz: "z i = z0 i" if "i < m" for i
    using dv [OF that] y [OF that] piv [OF that] by (simp add: y0_def)
  have z1: "z0 i = x i + (\<Sum>t\<in>{i<..<m}. ldu_U A i t * x t)" if "i < m" for i
  proof -
    have "(\<Sum>t<i. ldu_U A i t * x t) = 0"
    proof (rule sum.neutral, rule ballI)
      fix t assume "t \<in> {..<i}"
      then have "t < i" by simp
      with that have "ldu_U A i t = 0" by (intro ldu_U_lower piv) simp_all
      then show "ldu_U A i t * x t = 0" by simp
    qed
    with sum_split_at [OF that, of "\<lambda>t. ldu_U A i t * x t"] ldu_U_diag [OF piv [OF that]]
    show ?thesis by (simp add: z0_def)
  qed
  have "w (m - Suc d) = x (m - Suc d)" if "d < m" for d
    using that
  proof (induction d rule: less_induct)
    case (less d)
    let ?i = "m - Suc d"
    have i: "?i < m" using less.prems by simp
    have "(\<Sum>j\<in>{?i<..<m}. ldu_U A ?i j * w j) = (\<Sum>j\<in>{?i<..<m}. ldu_U A ?i j * x j)"
    proof (rule sum.cong)
      fix j assume "j \<in> {?i<..<m}"
      then have j: "?i < j" "j < m" by simp_all
      define d' where "d' = m - Suc j"
      with j less.prems have "d' < d" "d' < m" "j = m - Suc d'" by simp_all
      with less.IH [of d'] show "ldu_U A ?i j * w j = ldu_U A ?i j * x j" by simp
    qed simp
    with bk [OF i] zz [OF i] z1 [OF i] show ?case by simp
  qed
  from this [of "m - Suc i"] show "w i = x i" if "i < m"
    using that by simp
qed

section \<open>Cauchy matrices\<close>

lemma schur_step_identity:
  fixes P Q c d a b e f :: "'a::field"
  assumes "c \<noteq> 0" "d \<noteq> 0" "a \<noteq> 0" "b \<noteq> 0" "e \<noteq> 0" "f \<noteq> 0"
    and "a = b + e - f"
  shows "P * Q / a - (P * d / b) * (c * Q / e) / (c * d / f)
           = (P * ((b - f) / b)) * (Q * ((e - f) / e)) / a"
proof -
  have "P * Q / a - (P * d / b) * (c * Q / e) / (c * d / f) = P * Q * (b * e - a * f) / (a * b * e)"
    using assms(1-6) by (simp add: field_simps)
  also have "b * e - a * f = (b - f) * (e - f)"
    unfolding assms(7) by (simp add: algebra_simps)
  also have "P * Q * ((b - f) * (e - f)) / (a * b * e)
               = (P * ((b - f) / b)) * (Q * ((e - f) / e)) / a"
    by (simp add: mult_ac)
  finally show ?thesis .
qed

lemma cauchy_u_Suc: "cauchy_u x y (Suc s) i = cauchy_u x y s i * ((x i - x s) / (x i - y s))"
  by (simp add: cauchy_u_def)

lemma cauchy_v_Suc: "cauchy_v x y v (Suc s) t = cauchy_v x y v s t * ((y s - y t) / (x s - y t))"
  by (simp add: cauchy_v_def)

lemma schur_cauchy:
  fixes x y v :: "nat \<Rightarrow> 'a::field"
  assumes A: "\<And>i t. i < m \<Longrightarrow> t < m \<Longrightarrow> A i t = v t / (x i - y t)"
    and xy: "\<And>i t. i < m \<Longrightarrow> t < m \<Longrightarrow> x i \<noteq> y t"
    and xinj: "inj_on x {..<m}" and yinj: "inj_on y {..<m}"
    and v: "\<And>t. t < m \<Longrightarrow> v t \<noteq> 0"
  shows "s \<le> m \<Longrightarrow> i < m \<Longrightarrow> t < m \<Longrightarrow>
           schur A s i t = cauchy_u x y s i * cauchy_v x y v s t / (x i - y t)"
proof (induction s arbitrary: i t)
  case 0
  then show ?case by (simp add: A cauchy_u_def cauchy_v_def)
next
  case (Suc s)
  then have s: "s < m" "s \<le> m" by simp_all
  have u0: "cauchy_u x y s s \<noteq> 0"
  proof -
    have "(x s - x q) / (x s - y q) \<noteq> 0" if "q \<in> {..<s}" for q
    proof -
      from that have q: "q < s" "q < m" using s by simp_all
      with xinj s have "x s \<noteq> x q" by (auto dest: inj_onD)
      with xy [of s q] s q show ?thesis by simp
    qed
    then show ?thesis by (simp add: cauchy_u_def)
  qed
  have v0: "cauchy_v x y v s s \<noteq> 0"
  proof -
    have "(y q - y s) / (x q - y s) \<noteq> 0" if "q \<in> {..<s}" for q
    proof -
      from that have q: "q < s" "q < m" using s by simp_all
      with yinj s have "y q \<noteq> y s" by (auto dest: inj_onD)
      with xy [of q s] s q show ?thesis by simp
    qed
    then have "(\<Prod>q < s. (y q - y s) / (x q - y s)) \<noteq> 0" by simp
    with v [OF s(1)] show ?thesis by (simp add: cauchy_v_def)
  qed
  note ih = Suc.IH [OF s(2)]
  have "schur A (Suc s) i t
          = cauchy_u x y s i * cauchy_v x y v s t / (x i - y t)
            - (cauchy_u x y s i * cauchy_v x y v s s / (x i - y s))
              * (cauchy_u x y s s * cauchy_v x y v s t / (x s - y t))
              / (cauchy_u x y s s * cauchy_v x y v s s / (x s - y s))"
    using Suc.prems s by (simp add: ih)
  also have "\<dots> = (cauchy_u x y s i * ((x i - x s) / (x i - y s)))
                    * (cauchy_v x y v s t * ((y s - y t) / (x s - y t))) / (x i - y t)"
  proof -
    have "cauchy_u x y s i * cauchy_v x y v s t / (x i - y t)
            - (cauchy_u x y s i * cauchy_v x y v s s / (x i - y s))
              * (cauchy_u x y s s * cauchy_v x y v s t / (x s - y t))
              / (cauchy_u x y s s * cauchy_v x y v s s / (x s - y s))
          = (cauchy_u x y s i * (((x i - y s) - (x s - y s)) / (x i - y s)))
              * (cauchy_v x y v s t * (((x s - y t) - (x s - y s)) / (x s - y t))) / (x i - y t)"
      using u0 v0 xy [of i t] xy [of i s] xy [of s t] xy [of s s] Suc.prems s
      by (intro schur_step_identity) simp_all
    then show ?thesis by simp
  qed
  finally show ?case by (simp add: cauchy_u_Suc cauchy_v_Suc)
qed

lemma cauchy_pivot_nonzero:
  fixes x y v :: "nat \<Rightarrow> 'a::field"
  assumes A: "\<And>i t. i < m \<Longrightarrow> t < m \<Longrightarrow> A i t = v t / (x i - y t)"
    and xy: "\<And>i t. i < m \<Longrightarrow> t < m \<Longrightarrow> x i \<noteq> y t"
    and xinj: "inj_on x {..<m}" and yinj: "inj_on y {..<m}"
    and v: "\<And>t. t < m \<Longrightarrow> v t \<noteq> 0"
    and s: "s < m"
  shows "ldu_D A s \<noteq> 0"
proof -
  have u0: "cauchy_u x y s s \<noteq> 0"
  proof -
    have "(x s - x q) / (x s - y q) \<noteq> 0" if "q \<in> {..<s}" for q
    proof -
      from that have q: "q < s" "q < m" using s by simp_all
      with xinj s have "x s \<noteq> x q" by (auto dest: inj_onD)
      with xy [of s q] s q show ?thesis by simp
    qed
    then show ?thesis by (simp add: cauchy_u_def)
  qed
  have v0: "cauchy_v x y v s s \<noteq> 0"
  proof -
    have "(y q - y s) / (x q - y s) \<noteq> 0" if "q \<in> {..<s}" for q
    proof -
      from that have q: "q < s" "q < m" using s by simp_all
      with yinj s have "y q \<noteq> y s" by (auto dest: inj_onD)
      with xy [of q s] s q show ?thesis by simp
    qed
    then have "(\<Prod>q < s. (y q - y s) / (x q - y s)) \<noteq> 0" by simp
    with v [OF s] show ?thesis by (simp add: cauchy_v_def)
  qed
  from schur_cauchy [of m A v x y s s s, OF A xy xinj yinj v] s
  have "schur A s s s = cauchy_u x y s s * cauchy_v x y v s s / (x s - y s)" by simp
  with u0 v0 xy [OF s s] show ?thesis by (simp add: ldu_D_def)
qed

section \<open>Bytes as field elements\<close>

lemma Abs_gf256_inject': "Abs_gf256 a = Abs_gf256 b \<longleftrightarrow> a = b"
  by (simp add: Abs_gf256_inject)

lemma Abs_gf256_0: "Abs_gf256 0 = 0"
  by (simp add: zero_gf256_def)

lemma Abs_gf256_1: "Abs_gf256 1 = 1"
  by (simp add: one_gf256_def)

lemma Abs_gf256_add: "Abs_gf256 (gf256_add a b) = Abs_gf256 a + Abs_gf256 b"
  by (simp add: plus_gf256.abs_eq)

lemma Abs_gf256_xor: "Abs_gf256 (a XOR b) = Abs_gf256 a + Abs_gf256 b"
  by (simp add: plus_gf256.abs_eq gf256_add_xor)

lemma Abs_gf256_mul: "Abs_gf256 (gf256_mul_entry a b) = Abs_gf256 a * Abs_gf256 b"
  by (simp add: times_gf256.abs_eq)

lemma Abs_gf256_div: "Abs_gf256 (gf256_div_entry a b) = Abs_gf256 a / Abs_gf256 b"
  by (simp add: divide_gf256.abs_eq)

lemma Abs_gf256_inv: "Abs_gf256 (gf256_inv_entry a) = inverse (Abs_gf256 a)"
  by (simp add: inverse_gf256.abs_eq)

lemma Abs_gf256_eq_0: "Abs_gf256 a = 0 \<longleftrightarrow> a = 0"
  by (simp add: zero_gf256_def Abs_gf256_inject)

lemma Abs_gf256_eq_1: "Abs_gf256 a = 1 \<longleftrightarrow> a = 1"
  by (simp add: one_gf256_def Abs_gf256_inject)

lemma gf256_add_self: "a + a = (0 :: gf256)"
  by transfer (simp add: gf256_add_xor)

section \<open>The bulk operations, byte by byte\<close>

lemma length_gf256_muladd_mem:
  "length vz \<le> length vx \<Longrightarrow> length (gf256_muladd_mem vz y vx bytes) = length vz"
  by (simp add: gf256_muladd_mem_def)

lemma nth_gf256_muladd_mem:
  "p < nat bytes \<Longrightarrow> p < length vz \<Longrightarrow> p < length vx
     \<Longrightarrow> gf256_muladd_mem vz y vx bytes ! p = gf256_add (vz ! p) (gf256_mul_entry (vx ! p) y)"
  by (simp add: gf256_muladd_mem_def nth_append)

lemma length_gf256_mul_mem:
  "length vz = length vx \<Longrightarrow> length (gf256_mul_mem vz vx y bytes) = length vz"
  by (simp add: gf256_mul_mem_def)

lemma nth_gf256_mul_mem:
  "p < nat bytes \<Longrightarrow> p < length vx
     \<Longrightarrow> gf256_mul_mem vz vx y bytes ! p = gf256_mul_entry (vx ! p) y"
  by (simp add: gf256_mul_mem_def nth_append)

lemma gf256_add_mem_muladd: "gf256_add_mem vz vx bytes = gf256_muladd_mem vz 1 vx bytes"
  by (simp add: gf256_add_mem_def gf256_muladd_mem_def gf256_mul_entry_1)

lemma fold_gf256_muladd_mem:
  assumes "\<And>j. j \<in> set js \<Longrightarrow> length (src j) = nat bytes" and "length acc = nat bytes"
  shows "length (fold (\<lambda>j b. gf256_muladd_mem b (c j) (src j) bytes) js acc) = nat bytes \<and>
         (\<forall>p<nat bytes.
            Abs_gf256 (fold (\<lambda>j b. gf256_muladd_mem b (c j) (src j) bytes) js acc ! p)
              = Abs_gf256 (acc ! p) + (\<Sum>j\<leftarrow>js. Abs_gf256 (c j) * Abs_gf256 (src j ! p)))"
  using assms
proof (induction js arbitrary: acc)
  case Nil
  then show ?case by simp
next
  case (Cons j js)
  let ?acc = "gf256_muladd_mem acc (c j) (src j) bytes"
  have len: "length ?acc = nat bytes"
    using Cons.prems by (simp add: length_gf256_muladd_mem)
  have nth: "Abs_gf256 (?acc ! p) = Abs_gf256 (acc ! p) + Abs_gf256 (c j) * Abs_gf256 (src j ! p)"
    if "p < nat bytes" for p
    using Cons.prems that
    by (simp add: nth_gf256_muladd_mem Abs_gf256_add Abs_gf256_mul mult.commute)
  from Cons.IH [OF _ len] Cons.prems(1) nth show ?case
    by (simp add: add.assoc)
qed

section \<open>The three passes of the solve\<close>

lemma sum_list_upt_lessThan: "(\<Sum>j\<leftarrow>[0..<k]. f j) = (\<Sum>j<k. f j)"
  by (simp add: interv_sum_list_conv_sum_set_nat atLeast0LessThan)

lemma sum_list_upt_greaterThanLessThan: "(\<Sum>j\<leftarrow>[Suc i..<m]. f j) = (\<Sum>j\<in>{i<..<m}. f j)"
  by (simp add: interv_sum_list_conv_sum_set_nat atLeastSucLessThan_greaterThanLessThan)

lemma forward_substitute_prefix:
  fixes L :: "uint8 list list" and bytes :: int
  defines "step \<equiv> \<lambda>i bs. bs[i := fold (\<lambda>j b. gf256_muladd_mem b (L ! j ! i) (bs ! j) bytes)
                                     [0..<i] (bs ! i)]"
  assumes len: "\<And>i. i < length bs \<Longrightarrow> length (bs ! i) = nat bytes"
    and k: "k \<le> length bs"
  shows "length (fold step [0..<k] bs) = length bs \<and>
         (\<forall>i<length bs. length (fold step [0..<k] bs ! i) = nat bytes) \<and>
         (\<forall>i<length bs. k \<le> i \<longrightarrow> fold step [0..<k] bs ! i = bs ! i) \<and>
         (\<forall>i<k. \<forall>p<nat bytes.
            Abs_gf256 (fold step [0..<k] bs ! i ! p)
              = Abs_gf256 (bs ! i ! p)
                + (\<Sum>j<i. Abs_gf256 (L ! j ! i) * Abs_gf256 (fold step [0..<k] bs ! j ! p)))"
  using k
proof (induction k)
  case 0
  then show ?case by (simp add: len)
next
  case (Suc k)
  define st where "st = fold step [0..<k] bs"
  define new where "new = fold (\<lambda>j b. gf256_muladd_mem b (L ! j ! k) (st ! j) bytes) [0..<k] (st ! k)"
  from Suc have k: "k < length bs" by simp
  from Suc.IH k have
    l: "length st = length bs" and
    ln: "\<And>i. i < length bs \<Longrightarrow> length (st ! i) = nat bytes" and
    un: "\<And>i. i < length bs \<Longrightarrow> k \<le> i \<Longrightarrow> st ! i = bs ! i" and
    eq: "\<And>i p. i < k \<Longrightarrow> p < nat bytes \<Longrightarrow>
           Abs_gf256 (st ! i ! p)
             = Abs_gf256 (bs ! i ! p) + (\<Sum>j<i. Abs_gf256 (L ! j ! i) * Abs_gf256 (st ! j ! p))"
    by (simp_all add: st_def)
  have st': "fold step [0..<Suc k] bs = st[k := new]"
    by (simp add: st_def new_def step_def)
  have new: "length new = nat bytes \<and>
     (\<forall>p<nat bytes. Abs_gf256 (new ! p)
        = Abs_gf256 (st ! k ! p) + (\<Sum>j\<leftarrow>[0..<k]. Abs_gf256 (L ! j ! k) * Abs_gf256 (st ! j ! p)))"
    unfolding new_def
  proof (rule fold_gf256_muladd_mem)
    show "length (st ! j) = nat bytes" if "j \<in> set [0..<k]" for j
      using that k by (simp add: ln)
    show "length (st ! k) = nat bytes" using k by (simp add: ln)
  qed
  have "length (st[k := new]) = length bs" by (simp add: l)
  moreover have "length (st[k := new] ! i) = nat bytes" if "i < length bs" for i
    using that new ln l by (cases "i = k") simp_all
  moreover have "st[k := new] ! i = bs ! i" if "i < length bs" "Suc k \<le> i" for i
    using that un by simp
  moreover have "Abs_gf256 (st[k := new] ! i ! p)
      = Abs_gf256 (bs ! i ! p)
        + (\<Sum>j<i. Abs_gf256 (L ! j ! i) * Abs_gf256 (st[k := new] ! j ! p))"
    if "i < Suc k" "p < nat bytes" for i p
  proof -
    have same: "(\<Sum>j<i. Abs_gf256 (L ! j ! i) * Abs_gf256 (st[k := new] ! j ! p))
                  = (\<Sum>j<i. Abs_gf256 (L ! j ! i) * Abs_gf256 (st ! j ! p))"
      using that by (intro sum.cong) simp_all
    show ?thesis
    proof (cases "i = k")
      case True
      with new that k l un [of k] show ?thesis
        by (simp add: same sum_list_upt_lessThan)
    next
      case False
      with that have "i < k" by simp
      with eq [OF this that(2)] False show ?thesis by (simp add: same)
    qed
  qed
  ultimately show ?case unfolding st' by blast
qed

lemma forward_substitute_correct:
  assumes "\<And>i. i < length bs \<Longrightarrow> length (bs ! i) = nat bytes"
  shows "length (forward_substitute L bytes bs) = length bs \<and>
         (\<forall>i<length bs. length (forward_substitute L bytes bs ! i) = nat bytes) \<and>
         (\<forall>i<length bs. \<forall>p<nat bytes.
            Abs_gf256 (forward_substitute L bytes bs ! i ! p)
              = Abs_gf256 (bs ! i ! p)
                + (\<Sum>j<i. Abs_gf256 (L ! j ! i)
                            * Abs_gf256 (forward_substitute L bytes bs ! j ! p)))"
  using forward_substitute_prefix [of bs bytes "length bs" L, OF assms]
  unfolding forward_substitute_def by simp

lemma divide_diagonal_correct:
  assumes "\<And>i. i < length bs \<Longrightarrow> length (bs ! i) = nat bytes"
  shows "length (divide_diagonal D bytes bs) = length bs \<and>
         (\<forall>i<length bs. length (divide_diagonal D bytes bs ! i) = nat bytes) \<and>
         (\<forall>i<length bs. \<forall>p<nat bytes.
            Abs_gf256 (divide_diagonal D bytes bs ! i ! p)
              = Abs_gf256 (bs ! i ! p) / Abs_gf256 (D ! i))"
  using assms
  by (simp add: divide_diagonal_def length_gf256_mul_mem nth_gf256_mul_mem
      Abs_gf256_mul Abs_gf256_inv divide_inverse)

lemma back_substitute_suffix:
  fixes U :: "uint8 list list" and bytes :: int
  defines "step \<equiv> \<lambda>i bs. bs[i := fold (\<lambda>j b. gf256_muladd_mem b (U ! i ! j) (bs ! j) bytes)
                                     [Suc i..<length bs] (bs ! i)]"
  assumes len: "\<And>i. i < length bs \<Longrightarrow> length (bs ! i) = nat bytes"
    and d: "d \<le> length bs"
  shows "length (fold step (rev [length bs - d..<length bs]) bs) = length bs \<and>
         (\<forall>i<length bs. length (fold step (rev [length bs - d..<length bs]) bs ! i) = nat bytes) \<and>
         (\<forall>i<length bs - d. fold step (rev [length bs - d..<length bs]) bs ! i = bs ! i) \<and>
         (\<forall>i<length bs. length bs - d \<le> i \<longrightarrow> (\<forall>p<nat bytes.
            Abs_gf256 (fold step (rev [length bs - d..<length bs]) bs ! i ! p)
              = Abs_gf256 (bs ! i ! p)
                + (\<Sum>j\<in>{i<..<length bs}. Abs_gf256 (U ! i ! j)
                     * Abs_gf256 (fold step (rev [length bs - d..<length bs]) bs ! j ! p))))"
  using d
proof (induction d)
  case 0
  then show ?case by (simp add: len)
next
  case (Suc d)
  define m where "m = length bs"
  define k where "k = m - Suc d"
  define st where "st = fold step (rev [m - d..<m]) bs"
  define new where "new = fold (\<lambda>j b. gf256_muladd_mem b (U ! k ! j) (st ! j) bytes) [Suc k..<m] (st ! k)"
  from Suc have k: "k < m" "m - d = Suc k" by (simp_all add: k_def m_def)
  from Suc.IH Suc.prems have
    l: "length st = m" and
    ln: "\<And>i. i < m \<Longrightarrow> length (st ! i) = nat bytes" and
    un: "\<And>i. i < m - d \<Longrightarrow> st ! i = bs ! i" and
    eq: "\<And>i p. i < m \<Longrightarrow> m - d \<le> i \<Longrightarrow> p < nat bytes \<Longrightarrow>
           Abs_gf256 (st ! i ! p)
             = Abs_gf256 (bs ! i ! p)
               + (\<Sum>j\<in>{i<..<m}. Abs_gf256 (U ! i ! j) * Abs_gf256 (st ! j ! p))"
    by (simp_all add: st_def m_def)
  have "[k..<m] = k # [Suc k..<m]" using k by (simp add: upt_conv_Cons)
  then have "fold step (rev [m - Suc d..<m]) bs = step k st"
    using k by (simp add: st_def k_def [symmetric])
  also have "step k st = st[k := new]"
    by (simp add: step_def new_def l)
  finally have st': "fold step (rev [m - Suc d..<m]) bs = st[k := new]" .
  have new: "length new = nat bytes \<and>
     (\<forall>p<nat bytes. Abs_gf256 (new ! p)
        = Abs_gf256 (st ! k ! p)
          + (\<Sum>j\<leftarrow>[Suc k..<m]. Abs_gf256 (U ! k ! j) * Abs_gf256 (st ! j ! p)))"
    unfolding new_def
  proof (rule fold_gf256_muladd_mem)
    show "length (st ! j) = nat bytes" if "j \<in> set [Suc k..<m]" for j
      using that by (simp add: ln)
    show "length (st ! k) = nat bytes" using k by (simp add: ln)
  qed
  have "length (st[k := new]) = m" by (simp add: l)
  moreover have "length (st[k := new] ! i) = nat bytes" if "i < m" for i
    using that new ln l by (cases "i = k") simp_all
  moreover have "st[k := new] ! i = bs ! i" if "i < m - Suc d" for i
    using that un k by (simp add: k_def)
  moreover have "Abs_gf256 (st[k := new] ! i ! p)
      = Abs_gf256 (bs ! i ! p)
        + (\<Sum>j\<in>{i<..<m}. Abs_gf256 (U ! i ! j) * Abs_gf256 (st[k := new] ! j ! p))"
    if "i < m" "m - Suc d \<le> i" "p < nat bytes" for i p
  proof -
    from that have ki: "k \<le> i" by (simp add: k_def)
    have same: "(\<Sum>j\<in>{i<..<m}. Abs_gf256 (U ! i ! j) * Abs_gf256 (st[k := new] ! j ! p))
                  = (\<Sum>j\<in>{i<..<m}. Abs_gf256 (U ! i ! j) * Abs_gf256 (st ! j ! p))"
      using ki by (intro sum.cong) simp_all
    show ?thesis
    proof (cases "i = k")
      case True
      with new that k l un [of k] show ?thesis
        by (simp add: same sum_list_upt_greaterThanLessThan)
    next
      case False
      with ki k have "m - d \<le> i" by simp
      with eq [OF that(1) this that(3)] False show ?thesis by (simp add: same)
    qed
  qed
  ultimately show ?case unfolding st' m_def [symmetric] by blast
qed

lemma back_substitute_correct:
  assumes "\<And>i. i < length bs \<Longrightarrow> length (bs ! i) = nat bytes"
  shows "length (back_substitute U bytes bs) = length bs \<and>
         (\<forall>i<length bs. length (back_substitute U bytes bs ! i) = nat bytes) \<and>
         (\<forall>i<length bs. \<forall>p<nat bytes.
            Abs_gf256 (back_substitute U bytes bs ! i ! p)
              = Abs_gf256 (bs ! i ! p)
                + (\<Sum>j\<in>{i<..<length bs}. Abs_gf256 (U ! i ! j)
                            * Abs_gf256 (back_substitute U bytes bs ! j ! p)))"
  using back_substitute_suffix [of bs bytes "length bs" U, OF assms]
  unfolding back_substitute_def by simp

section \<open>The factorisation of the decoder\<close>

lemma eliminate_correct:
  assumes "length M = m" and "\<And>i. i < m \<Longrightarrow> length (M ! i) = m" and "s < m"
    and "\<And>i t. i < m \<Longrightarrow> t < m \<Longrightarrow> Abs_gf256 (M ! i ! t) = schur A s i t"
  shows "length (eliminate s M) = m \<and>
         (\<forall>i<m. length (eliminate s M ! i) = m) \<and>
         (\<forall>i<m. \<forall>t<m. Abs_gf256 (eliminate s M ! i ! t) = schur A (Suc s) i t)"
  using assms
  by (simp add: eliminate_def Abs_gf256_add Abs_gf256_mul Abs_gf256_div gf256_minus_eq_plus)

lemma ldu_steps_correct:
  assumes "length M = m" and "\<And>i. i < m \<Longrightarrow> length (M ! i) = m" and "s + k = m"
    and "\<And>i t. i < m \<Longrightarrow> t < m \<Longrightarrow> Abs_gf256 (M ! i ! t) = schur A s i t"
    and "\<And>q. q < k \<Longrightarrow> ldu_D A (s + q) \<noteq> 0"
  shows "\<exists>L D U. ldu_steps k s M = Some (L, D, U) \<and>
           length L = k \<and> length D = k \<and> length U = k \<and>
           (\<forall>q<k. Abs_gf256 (D ! q) = ldu_D A (s + q) \<and>
              length (L ! q) = m \<and> length (U ! q) = m \<and>
              (\<forall>i<m. Abs_gf256 (L ! q ! i) = ldu_L A i (s + q)) \<and>
              (\<forall>t<m. Abs_gf256 (U ! q ! t) = ldu_U A (s + q) t))"
  using assms
proof (induction k arbitrary: s M)
  case 0
  then show ?case by simp
next
  case (Suc k)
  from Suc.prems(3) have s: "s < m" by simp
  from Suc.prems(5) [of 0] have piv: "schur A s s s \<noteq> 0" by (simp add: ldu_D_def)
  with Suc.prems(4) [OF s s] have nz: "M ! s ! s \<noteq> 0"
    by (auto simp add: Abs_gf256_0)
  from eliminate_correct [OF Suc.prems(1,2) s Suc.prems(4)]
  have el: "length (eliminate s M) = m"
    "\<And>i. i < m \<Longrightarrow> length (eliminate s M ! i) = m"
    "\<And>i t. i < m \<Longrightarrow> t < m \<Longrightarrow> Abs_gf256 (eliminate s M ! i ! t) = schur A (Suc s) i t"
    by simp_all
  have "\<exists>L D U. ldu_steps k (Suc s) (eliminate s M) = Some (L, D, U) \<and>
           length L = k \<and> length D = k \<and> length U = k \<and>
           (\<forall>q<k. Abs_gf256 (D ! q) = ldu_D A (Suc s + q) \<and>
              length (L ! q) = m \<and> length (U ! q) = m \<and>
              (\<forall>i<m. Abs_gf256 (L ! q ! i) = ldu_L A i (Suc s + q)) \<and>
              (\<forall>t<m. Abs_gf256 (U ! q ! t) = ldu_U A (Suc s + q) t))"
  proof (rule Suc.IH [OF el(1,2) _ el(3)])
    show "Suc s + k = m" using Suc.prems(3) by simp
    show "ldu_D A (Suc s + q) \<noteq> 0" if "q < k" for q
      using Suc.prems(5) [of "Suc q"] that by simp
  qed
  then obtain L D U where rec: "ldu_steps k (Suc s) (eliminate s M) = Some (L, D, U)"
    and len: "length L = k" "length D = k" "length U = k"
    and ent: "\<And>q. q < k \<Longrightarrow> Abs_gf256 (D ! q) = ldu_D A (Suc s + q) \<and>
              length (L ! q) = m \<and> length (U ! q) = m \<and>
              (\<forall>i<m. Abs_gf256 (L ! q ! i) = ldu_L A i (Suc s + q)) \<and>
              (\<forall>t<m. Abs_gf256 (U ! q ! t) = ldu_U A (Suc s + q) t)"
    by blast
  let ?L = "map (\<lambda>i. gf256_div_entry (M ! i ! s) (M ! s ! s)) [0..<length M] # L"
  let ?D = "M ! s ! s # D"
  let ?U = "map (\<lambda>t. gf256_div_entry (M ! s ! t) (M ! s ! s)) [0..<length M] # U"
  have res: "ldu_steps (Suc k) s M = Some (?L, ?D, ?U)"
    using nz rec by simp
  have "Abs_gf256 (?D ! q) = ldu_D A (s + q) \<and>
          length (?L ! q) = m \<and> length (?U ! q) = m \<and>
          (\<forall>i<m. Abs_gf256 (?L ! q ! i) = ldu_L A i (s + q)) \<and>
          (\<forall>t<m. Abs_gf256 (?U ! q ! t) = ldu_U A (s + q) t)"
    if "q < Suc k" for q
  proof (cases q)
    case 0
    then show ?thesis
      using Suc.prems(1) Suc.prems(4) s
      by (simp add: ldu_D_def ldu_L_def ldu_U_def Abs_gf256_div)
  next
    case (Suc q')
    with that ent [of q'] show ?thesis by simp
  qed
  with res len show ?case by simp
qed

lemma GenerateLDUDecomposition_correct:
  assumes "length M = m" and "\<And>i. i < m \<Longrightarrow> length (M ! i) = m"
    and "\<And>q. q < m \<Longrightarrow> ldu_D (\<lambda>i t. Abs_gf256 (M ! i ! t)) q \<noteq> 0"
  shows "\<exists>L D U. GenerateLDUDecomposition M = Some (L, D, U) \<and>
           (\<forall>q<m. Abs_gf256 (D ! q) = ldu_D (\<lambda>i t. Abs_gf256 (M ! i ! t)) q \<and>
              (\<forall>i<m. Abs_gf256 (L ! q ! i) = ldu_L (\<lambda>i t. Abs_gf256 (M ! i ! t)) i q) \<and>
              (\<forall>t<m. Abs_gf256 (U ! q ! t) = ldu_U (\<lambda>i t. Abs_gf256 (M ! i ! t)) q t))"
proof -
  from ldu_steps_correct [of M m 0 m "\<lambda>i t. Abs_gf256 (M ! i ! t)"] assms
  show ?thesis
    unfolding GenerateLDUDecomposition_def by simp blast
qed

section \<open>The solve of the decoder\<close>

lemma solve_correct:
  fixes x :: "nat \<Rightarrow> nat \<Rightarrow> gf256"
  assumes M: "length M = m" "\<And>i. i < m \<Longrightarrow> length (M ! i) = m"
    and piv: "\<And>q. q < m \<Longrightarrow> ldu_D (\<lambda>i t. Abs_gf256 (M ! i ! t)) q \<noteq> 0"
    and bs: "length bs = m" "\<And>i. i < m \<Longrightarrow> length (bs ! i) = nat bytes"
    and rhs: "\<And>i p. i < m \<Longrightarrow> p < nat bytes \<Longrightarrow>
                Abs_gf256 (bs ! i ! p) = (\<Sum>t<m. Abs_gf256 (M ! i ! t) * x t p)"
  shows "\<exists>L D U. GenerateLDUDecomposition M = Some (L, D, U) \<and>
           length (back_substitute U bytes (divide_diagonal D bytes (forward_substitute L bytes bs)))
             = m \<and>
           (\<forall>i<m. length (back_substitute U bytes
                      (divide_diagonal D bytes (forward_substitute L bytes bs)) ! i) = nat bytes \<and>
              (\<forall>p<nat bytes. Abs_gf256 (back_substitute U bytes
                      (divide_diagonal D bytes (forward_substitute L bytes bs)) ! i ! p) = x i p))"
proof -
  let ?A = "\<lambda>i t. Abs_gf256 (M ! i ! t)"
  from GenerateLDUDecomposition_correct [OF M piv]
  obtain L D U where ldu: "GenerateLDUDecomposition M = Some (L, D, U)"
    and D: "\<And>q. q < m \<Longrightarrow> Abs_gf256 (D ! q) = ldu_D ?A q"
    and L: "\<And>q i. q < m \<Longrightarrow> i < m \<Longrightarrow> Abs_gf256 (L ! q ! i) = ldu_L ?A i q"
    and U: "\<And>q t. q < m \<Longrightarrow> t < m \<Longrightarrow> Abs_gf256 (U ! q ! t) = ldu_U ?A q t"
    by blast
  define ys where "ys = forward_substitute L bytes bs"
  define zs where "zs = divide_diagonal D bytes ys"
  define ws where "ws = back_substitute U bytes zs"
  from forward_substitute_correct [of bs bytes L] bs
  have ys: "length ys = m" "\<And>i. i < m \<Longrightarrow> length (ys ! i) = nat bytes"
    "\<And>i p. i < m \<Longrightarrow> p < nat bytes \<Longrightarrow>
       Abs_gf256 (ys ! i ! p)
         = Abs_gf256 (bs ! i ! p) + (\<Sum>j<i. Abs_gf256 (L ! j ! i) * Abs_gf256 (ys ! j ! p))"
    by (simp_all add: ys_def)
  from divide_diagonal_correct [of ys bytes D] ys(1,2)
  have zs: "length zs = m" "\<And>i. i < m \<Longrightarrow> length (zs ! i) = nat bytes"
    "\<And>i p. i < m \<Longrightarrow> p < nat bytes \<Longrightarrow>
       Abs_gf256 (zs ! i ! p) = Abs_gf256 (ys ! i ! p) / Abs_gf256 (D ! i)"
    by (simp_all add: zs_def)
  from back_substitute_correct [of zs bytes U] zs(1,2)
  have ws: "length ws = m" "\<And>i. i < m \<Longrightarrow> length (ws ! i) = nat bytes"
    "\<And>i p. i < m \<Longrightarrow> p < nat bytes \<Longrightarrow>
       Abs_gf256 (ws ! i ! p)
         = Abs_gf256 (zs ! i ! p)
           + (\<Sum>j\<in>{i<..<m}. Abs_gf256 (U ! i ! j) * Abs_gf256 (ws ! j ! p))"
    by (simp_all add: ws_def)
  have "Abs_gf256 (ws ! i ! p) = x i p" if "i < m" "p < nat bytes" for i p
  proof (rule ldu_solve [of m ?A "\<lambda>i. Abs_gf256 (bs ! i ! p)" "\<lambda>t. x t p"
        "\<lambda>i. Abs_gf256 (ys ! i ! p)" "\<lambda>i. Abs_gf256 (zs ! i ! p)"
        "\<lambda>i. Abs_gf256 (ws ! i ! p)" i])
    show "ldu_D ?A s \<noteq> 0" if "s < m" for s by (rule piv [OF that])
    show "Abs_gf256 (bs ! i ! p) = (\<Sum>t<m. Abs_gf256 (M ! i ! t) * x t p)" if "i < m" for i
      by (rule rhs [OF that \<open>p < nat bytes\<close>])
    show "Abs_gf256 (ys ! i ! p)
            = Abs_gf256 (bs ! i ! p) - (\<Sum>j<i. ldu_L ?A i j * Abs_gf256 (ys ! j ! p))"
      if "i < m" for i
    proof -
      have "(\<Sum>j<i. Abs_gf256 (L ! j ! i) * Abs_gf256 (ys ! j ! p))
              = (\<Sum>j<i. ldu_L ?A i j * Abs_gf256 (ys ! j ! p))"
        using that by (intro sum.cong) (simp_all add: L)
      with ys(3) [OF that \<open>p < nat bytes\<close>] show ?thesis
        by (simp add: gf256_minus_eq_plus)
    qed
    show "Abs_gf256 (zs ! i ! p) = Abs_gf256 (ys ! i ! p) / ldu_D ?A i" if "i < m" for i
      using zs(3) [OF that \<open>p < nat bytes\<close>] D [OF that] by simp
    show "Abs_gf256 (ws ! i ! p)
            = Abs_gf256 (zs ! i ! p) - (\<Sum>j\<in>{i<..<m}. ldu_U ?A i j * Abs_gf256 (ws ! j ! p))"
      if "i < m" for i
    proof -
      have "(\<Sum>j\<in>{i<..<m}. Abs_gf256 (U ! i ! j) * Abs_gf256 (ws ! j ! p))
              = (\<Sum>j\<in>{i<..<m}. ldu_U ?A i j * Abs_gf256 (ws ! j ! p))"
        using that by (intro sum.cong) (simp_all add: U)
      with ws(3) [OF that \<open>p < nat bytes\<close>] show ?thesis
        by (simp add: gf256_minus_eq_plus)
    qed
    show "i < m" by (rule that(1))
  qed
  with ldu ws(1,2) show ?thesis
    unfolding ws_def zs_def ys_def by blast
qed

section \<open>The coefficients\<close>

lemma disjoint_assignmentD:
  assumes "disjoint_assignment params X"
  shows "\<And>i j. i < nat (RecoveryCount params) \<Longrightarrow> j < nat (OriginalCount params)
           \<Longrightarrow> X i \<noteq> of_nat j"
    and "inj_on X {..<nat (RecoveryCount params)}"
  using assms
  by (auto simp add: disjoint_assignment_def list_all_iff distinct_map atLeast0LessThan)

lemma Abs_matrix_element:
  assumes "X 0 \<noteq> of_nat j" and "X i \<noteq> of_nat j"
  shows "Abs_gf256 (matrix_element X i j)
           = (Abs_gf256 (X 0) - Abs_gf256 (of_nat j)) / (Abs_gf256 (X i) - Abs_gf256 (of_nat j))"
proof -
  have "Abs_gf256 (X 0) - Abs_gf256 (of_nat j) \<noteq> 0" "Abs_gf256 (X i) - Abs_gf256 (of_nat j) \<noteq> 0"
    using assms by (simp_all add: Abs_gf256_inject)
  then show ?thesis
    by (cases "i = 0")
      (simp_all add: matrix_element_def cauchy_element_def Abs_gf256_div Abs_gf256_inv
        Abs_gf256_add Abs_gf256_1 gf256_minus_eq_plus [symmetric] field_simps)
qed

lemma matrix_element_row_0: "matrix_element X 0 j = 1"
  by (simp add: matrix_element_def)

lemma matrix_element_nonzero:
  "X 0 \<noteq> of_nat j \<Longrightarrow> X i \<noteq> of_nat j \<Longrightarrow> matrix_element X i j \<noteq> 0"
  using Abs_matrix_element [of X j i]
  by (simp add: Abs_gf256_eq_0 [symmetric] Abs_gf256_inject)

section \<open>The recovery blocks\<close>

lemma zip_upt_Cons:
  "zip [1..<Suc (length rest)] rest = map (\<lambda>j. (j, (o0 # rest) ! j)) [1..<Suc (length rest)]"
  by (rule nth_equalityI) (simp_all del: upt_Suc)

lemma EncodeOneDataBlock_correct:
  assumes len: "list_all (\<lambda>b. length (Block b) = nat (BlockBytes params)) originals"
    and ne: "originals \<noteq> []"
    and row0: "\<And>j. j < length originals \<Longrightarrow> matrix_element X 0 j = 1"
    and i: "0 \<le> i"
  shows "length (EncodeOneDataBlock X params originals (OriginalCount params + i))
           = nat (BlockBytes params) \<and>
         (\<forall>p<nat (BlockBytes params).
            Abs_gf256 (EncodeOneDataBlock X params originals (OriginalCount params + i) ! p)
              = (\<Sum>j<length originals. Abs_gf256 (matrix_element X (nat i) j)
                                          * Abs_gf256 (Block (originals ! j) ! p)))"
proof -
  let ?n = "nat (BlockBytes params)"
  from ne obtain o0 rest where o: "originals = o0 # rest" by (cases originals) auto
  from len o have l0: "length (Block o0) = ?n"
    and lr: "\<And>b. b \<in> set rest \<Longrightarrow> length (Block b) = ?n"
    by (simp_all add: list_all_iff)
  show ?thesis
  proof (cases "i = 0")
    case True
    let ?r = "fold (\<lambda>b acc. gf256_muladd_mem acc 1 (Block b) (BlockBytes params)) rest
                (take ?n (Block o0))"
    have enc: "EncodeOneDataBlock X params originals (OriginalCount params + i) = ?r"
      using True by (simp add: EncodeOneDataBlock_def o gf256_add_mem_muladd)
    from fold_gf256_muladd_mem [of rest Block "BlockBytes params" "take ?n (Block o0)" "\<lambda>_. 1"]
      lr l0
    have r: "length ?r = ?n"
      "\<And>p. p < ?n \<Longrightarrow> Abs_gf256 (?r ! p)
           = Abs_gf256 (Block o0 ! p) + (\<Sum>b\<leftarrow>rest. Abs_gf256 (Block b ! p))"
      by (simp_all add: Abs_gf256_1)
    have "Abs_gf256 (?r ! p)
            = (\<Sum>j<length originals. Abs_gf256 (matrix_element X (nat i) j)
                                        * Abs_gf256 (Block (originals ! j) ! p))"
      if "p < ?n" for p
    proof -
      have "(\<Sum>j<length originals. Abs_gf256 (matrix_element X (nat i) j)
                                        * Abs_gf256 (Block (originals ! j) ! p))
              = (\<Sum>j<length originals. Abs_gf256 (Block (originals ! j) ! p))"
        using True by (intro sum.cong) (simp_all add: row0 Abs_gf256_1)
      also have "\<dots> = (\<Sum>b\<leftarrow>originals. Abs_gf256 (Block b ! p))"
        by (simp add: sum_list_sum_nth atLeast0LessThan)
      finally show ?thesis using r(2) [OF that] by (simp add: o)
    qed
    with r(1) enc show ?thesis by simp
  next
    case False
    with i have pos: "OriginalCount params + i \<noteq> OriginalCount params" by simp
    let ?row = "nat i"
    let ?acc = "gf256_mul_mem (replicate ?n 0) (Block o0) (matrix_element X ?row 0)
                  (BlockBytes params)"
    let ?c = "\<lambda>jb :: nat \<times> DataBlock. matrix_element X ?row (fst jb)"
    let ?src = "\<lambda>jb :: nat \<times> DataBlock. Block (snd jb)"
    let ?js = "zip [1..<Suc (length rest)] rest"
    let ?r = "fold (\<lambda>jb acc. gf256_muladd_mem acc (?c jb) (?src jb) (BlockBytes params)) ?js ?acc"
    have enc: "EncodeOneDataBlock X params originals (OriginalCount params + i) = ?r"
      using pos by (simp add: EncodeOneDataBlock_def o case_prod_unfold Let_def del: upt_Suc)
    have la: "length ?acc = ?n" using l0 by (simp add: length_gf256_mul_mem)
    have na: "Abs_gf256 (?acc ! p)
                = Abs_gf256 (matrix_element X ?row 0) * Abs_gf256 (Block o0 ! p)"
      if "p < ?n" for p
      using that l0 by (simp add: nth_gf256_mul_mem Abs_gf256_mul mult.commute)
    have "length (?src jb) = ?n" if "jb \<in> set ?js" for jb
    proof -
      from that have "(fst jb, snd jb) \<in> set ?js" by simp
      then have "snd jb \<in> set rest" by (rule set_zip_rightD)
      then show ?thesis by (rule lr)
    qed
    from fold_gf256_muladd_mem [of ?js ?src "BlockBytes params" ?acc ?c, OF this la]
    have r: "length ?r = ?n"
      "\<And>p. p < ?n \<Longrightarrow> Abs_gf256 (?r ! p)
           = Abs_gf256 (?acc ! p)
             + (\<Sum>jb\<leftarrow>?js. Abs_gf256 (?c jb) * Abs_gf256 (?src jb ! p))"
      by simp_all
    have "Abs_gf256 (?r ! p)
            = (\<Sum>j<length originals. Abs_gf256 (matrix_element X ?row j)
                                        * Abs_gf256 (Block (originals ! j) ! p))"
      if "p < ?n" for p
    proof -
      let ?f = "\<lambda>j. Abs_gf256 (matrix_element X ?row j) * Abs_gf256 (Block (originals ! j) ! p)"
      have "(\<Sum>jb\<leftarrow>?js. Abs_gf256 (?c jb) * Abs_gf256 (?src jb ! p))
              = (\<Sum>j\<leftarrow>[1..<Suc (length rest)]. ?f j)"
        unfolding zip_upt_Cons [of rest o0] by (simp add: o comp_def del: upt_Suc)
      also have "\<dots> = sum ?f {1..<Suc (length rest)}"
        by (simp only: interv_sum_list_conv_sum_set_nat set_upt)
      finally have "Abs_gf256 (?r ! p) = ?f 0 + sum ?f {Suc 0..<Suc (length rest)}"
        using r(2) [OF that] na [OF that] by (simp add: o)
      also have "\<dots> = sum ?f {0..<Suc (length rest)}"
        by (simp add: sum.atLeast_Suc_lessThan)
      finally show ?thesis by (simp add: o atLeast0LessThan)
    qed
    with r(1) enc show ?thesis by simp
  qed
qed

lemma concat_slice:
  assumes "\<And>x. x \<in> set xss \<Longrightarrow> length x = n" and "i < length xss"
  shows "take n (drop (i * n) (concat xss)) = xss ! i"
  using assms
proof (induction xss arbitrary: i)
  case Nil
  then show ?case by simp
next
  case (Cons x xss)
  show ?case
  proof (cases i)
    case 0
    with Cons.prems show ?thesis by simp
  next
    case (Suc i')
    with Cons.prems have "take n (drop (i' * n) (concat xss)) = xss ! i'"
      by (intro Cons.IH) simp_all
    with Suc Cons.prems(1) [of x] show ?thesis by simp
  qed
qed

lemma Encode_slices:
  assumes "Encode X params originals = Inr rec"
    and "\<And>i. i < nat (RecoveryCount params) \<Longrightarrow>
           length (EncodeOneDataBlock X params originals (OriginalCount params + int i))
             = nat (BlockBytes params)"
    and "i < nat (RecoveryCount params)"
  shows "recovery_slice params rec i
           = EncodeOneDataBlock X params originals (OriginalCount params + int i)"
proof -
  let ?xss = "map (\<lambda>i. EncodeOneDataBlock X params originals (OriginalCount params + int i))
                [0..<nat (RecoveryCount params)]"
  from assms(1) have rec: "rec = concat ?xss"
    by (simp add: Encode_def split: if_splits)
  have "take (nat (BlockBytes params)) (drop (i * nat (BlockBytes params)) (concat ?xss)) = ?xss ! i"
    using assms(2,3) by (intro concat_slice) auto
  with assms(3) show ?thesis by (simp add: recovery_slice_def rec)
qed

section \<open>Updates of the array of blocks\<close>

lemma fold_list_update:
  assumes "distinct ps" and "length vs = length ps" and "\<And>p. p \<in> set ps \<Longrightarrow> p < length xs"
  shows "length (fold (\<lambda>pv ys. ys[fst pv := g (snd pv)]) (zip ps vs) xs) = length xs \<and>
         (\<forall>i<length ps. fold (\<lambda>pv ys. ys[fst pv := g (snd pv)]) (zip ps vs) xs ! (ps ! i)
                            = g (vs ! i)) \<and>
         (\<forall>q. q \<notin> set ps \<longrightarrow>
            fold (\<lambda>pv ys. ys[fst pv := g (snd pv)]) (zip ps vs) xs ! q = xs ! q)"
  using assms
proof (induction ps arbitrary: vs xs)
  case Nil
  then show ?case by simp
next
  case (Cons p ps)
  from Cons.prems(2) obtain v vs' where vs: "vs = v # vs'" by (cases vs) auto
  let ?xs = "xs[p := g v]"
  let ?out = "fold (\<lambda>pv ys. ys[fst pv := g (snd pv)]) (zip ps vs') ?xs"
  have ih: "length ?out = length ?xs"
    "\<And>i. i < length ps \<Longrightarrow> ?out ! (ps ! i) = g (vs' ! i)"
    "\<And>q. q \<notin> set ps \<Longrightarrow> ?out ! q = ?xs ! q"
    using Cons.IH [of vs' ?xs] Cons.prems vs by simp_all
  have out: "fold (\<lambda>pv ys. ys[fst pv := g (snd pv)]) (zip (p # ps) vs) xs = ?out"
    by (simp add: vs)
  have "?out ! ((p # ps) ! i) = g (vs ! i)" if "i < length (p # ps)" for i
  proof (cases i)
    case 0
    with Cons.prems(1,3) ih(3) [of p] show ?thesis by (simp add: vs)
  next
    case (Suc i')
    with that ih(2) [of i'] show ?thesis by (simp add: vs)
  qed
  moreover have "?out ! q = xs ! q" if "q \<notin> set (p # ps)" for q
    using that ih(3) [of q] by simp
  ultimately show ?case unfolding out using ih(1) by simp
qed

section \<open>The partition, position by position\<close>

lemma unat_uint8_of_nat: "j < 256 \<Longrightarrow> unat (of_nat j :: uint8) = j"
  by (simp add: unat_of_nat)

lemma is_original_iff: "is_original params b \<longleftrightarrow> unat (Index b) < nat (OriginalCount params)"
proof -
  have u: "uint (Index b) = int (unat (Index b))" by (rule uint_nat)
  show ?thesis unfolding is_original_def u by (simp only: zless_nat_eq_int_zless)
qed

lemma set_original_positions:
  "set (original_positions params blocks)
     = {q. q < length blocks \<and> is_original params (blocks ! q)}"
  by (auto simp add: original_positions_def)

lemma set_recovery_positions:
  "set (recovery_positions params blocks)
     = {q. q < length blocks \<and> \<not> is_original params (blocks ! q)}"
  by (auto simp add: recovery_positions_def)

lemma distinct_positions:
  "distinct (original_positions params blocks)" "distinct (recovery_positions params blocks)"
  by (simp_all add: original_positions_def recovery_positions_def)

lemma distinct_missing_originals:
  "OriginalCount params \<le> 256 \<Longrightarrow> distinct (missing_originals params blocks)"
  unfolding missing_originals_def
  by (rule distinct_filter) (rule distinct_original_indices, simp)

lemma set_missing_originals:
  "set (missing_originals params blocks)
     = {e. (\<exists>j<nat (OriginalCount params). e = of_nat j) \<and> e \<notin> Index ` set blocks}"
  by (auto simp add: missing_originals_def)

lemma missing_original_less:
  assumes "OriginalCount params \<le> 256" and "e \<in> set (missing_originals params blocks)"
  shows "unat e < nat (OriginalCount params)"
proof -
  from assms(2) obtain j where j: "j < nat (OriginalCount params)" "e = of_nat j"
    by (auto simp add: set_missing_originals)
  with assms(1) have "unat e = j" by (simp add: unat_uint8_of_nat)
  with j show ?thesis by simp
qed

text \<open>
  The sum over all original indices plus the sum over the indices of the supplied
  originals is the sum over the missing indices: in this field every element is its own
  negative.
\<close>

lemma sum_missing_originals:
  fixes f :: "nat \<Rightarrow> gf256"
  assumes k: "OriginalCount params \<le> 256" and dist: "distinct (map Index blocks)"
  shows "(\<Sum>j<nat (OriginalCount params). f j)
           + (\<Sum>q\<leftarrow>original_positions params blocks. f (unat (Index (blocks ! q))))
         = (\<Sum>t<length (missing_originals params blocks).
              f (unat (missing_originals params blocks ! t)))"
proof -
  let ?k = "nat (OriginalCount params)"
  let ?E = "missing_originals params blocks"
  let ?Op = "original_positions params blocks"
  let ?idx = "\<lambda>q. unat (Index (blocks ! q))"
  let ?P = "?idx ` set ?Op"
  let ?Ms = "unat ` set ?E"
  have k256: "?k \<le> 256" using k by simp
  have inj_idx: "inj_on ?idx (set ?Op)"
  proof (rule inj_onI)
    fix q q' assume q: "q \<in> set ?Op" "q' \<in> set ?Op" and eq: "?idx q = ?idx q'"
    then have "q < length blocks" "q' < length blocks"
      by (simp_all add: set_original_positions)
    moreover from eq have "Index (blocks ! q) = Index (blocks ! q')"
      by (simp add: word_unat_eq_iff)
    ultimately show "q = q'"
      using dist by (auto simp add: distinct_conv_nth)
  qed
  have P: "?P = {j. j < ?k \<and> of_nat j \<in> Index ` set blocks}"
  proof (intro set_eqI iffI)
    fix j assume "j \<in> ?P"
    then obtain q where q: "q < length blocks" "is_original params (blocks ! q)" "j = ?idx q"
      by (auto simp add: set_original_positions)
    then have "j < ?k" by (simp add: is_original_iff)
    moreover have "of_nat j = Index (blocks ! q)" using q by simp
    ultimately show "j \<in> {j. j < ?k \<and> of_nat j \<in> Index ` set blocks}"
      using q(1) by auto
  next
    fix j assume "j \<in> {j. j < ?k \<and> of_nat j \<in> Index ` set blocks}"
    then obtain b where j: "j < ?k" and b: "b \<in> set blocks" "of_nat j = Index b" by auto
    from b(1) obtain q where q: "q < length blocks" "blocks ! q = b"
      by (auto simp add: in_set_conv_nth)
    from j k256 b(2) have u: "unat (Index b) = j"
      by (simp add: unat_uint8_of_nat flip: b(2))
    with j q have "q \<in> set ?Op" by (simp add: set_original_positions is_original_iff)
    with u q show "j \<in> ?P" by force
  qed
  have Ms: "?Ms = {j. j < ?k \<and> of_nat j \<notin> Index ` set blocks}"
  proof (intro set_eqI iffI)
    fix j assume "j \<in> ?Ms"
    then obtain e where e: "e \<in> set ?E" "j = unat e" by auto
    then obtain j' where j': "j' < ?k" "e = of_nat j'" "e \<notin> Index ` set blocks"
      by (auto simp add: set_missing_originals)
    with k256 e have "j = j'" by (simp add: unat_uint8_of_nat)
    with j' show "j \<in> {j. j < ?k \<and> of_nat j \<notin> Index ` set blocks}" by simp
  next
    fix j assume "j \<in> {j. j < ?k \<and> of_nat j \<notin> Index ` set blocks}"
    then have j: "j < ?k" "of_nat j \<notin> Index ` set blocks" by simp_all
    then have "of_nat j \<in> set ?E" by (auto simp add: set_missing_originals)
    moreover have "unat (of_nat j :: uint8) = j" using j(1) k256 by (simp add: unat_uint8_of_nat)
    ultimately show "j \<in> ?Ms" by force
  qed
  have un: "{..<?k} = ?P \<union> ?Ms" "?P \<inter> ?Ms = {}"
    unfolding P Ms by auto
  have "(\<Sum>j<?k. f j) = sum f ?P + sum f ?Ms"
    unfolding un(1) by (rule sum.union_disjoint) (simp_all add: un(2))
  moreover have "(\<Sum>q\<leftarrow>?Op. f (?idx q)) = sum f ?P"
  proof -
    have "(\<Sum>q\<leftarrow>?Op. f (?idx q)) = sum (\<lambda>q. f (?idx q)) (set ?Op)"
      by (rule sum_list_distinct_conv_sum_set) (rule distinct_positions)
    also have "\<dots> = sum f ?P"
      using sum.reindex [OF inj_idx, of f] by (simp add: comp_def)
    finally show ?thesis .
  qed
  moreover have "(\<Sum>t<length ?E. f (unat (?E ! t))) = sum f ?Ms"
  proof -
    have "(\<Sum>t<length ?E. f (unat (?E ! t))) = (\<Sum>e\<leftarrow>?E. f (unat e))"
      by (simp add: sum_list_sum_nth atLeast0LessThan)
    also have "\<dots> = sum (\<lambda>e. f (unat e)) (set ?E)"
      by (rule sum_list_distinct_conv_sum_set) (rule distinct_missing_originals [OF k])
    also have "\<dots> = sum f ?Ms"
    proof -
      have "inj_on (unat :: uint8 \<Rightarrow> nat) (set ?E)"
        by (rule inj_onI) (simp add: word_unat_eq_iff)
      from sum.reindex [OF this, of f] show ?thesis by (simp add: comp_def)
    qed
    finally show ?thesis .
  qed
  moreover have "a + b + a = b" for a b :: gf256
  proof -
    have "a + b + a = (a + a) + b" by (simp only: ac_simps)
    then show ?thesis by (simp only: gf256_add_self add_0_left)
  qed
  ultimately show ?thesis by (simp only:)
qed

section \<open>The blocks of a stripe\<close>

lemma stripe_params:
  assumes "stripe X params originals rec blocks"
  shows "valid_params params" and "disjoint_assignment params X"
    and "nat (OriginalCount params) = length originals"
    and "length blocks = length originals"
    and "OriginalCount params \<le> 256" and "0 < nat (RecoveryCount params)"
    and "originals \<noteq> []"
    and "distinct (map Index blocks)"
    and "\<And>b. b \<in> set originals \<Longrightarrow> length (Block b) = nat (BlockBytes params)"
  using assms
  by (auto simp add: stripe_def supplied_def valid_params_def list_all_iff)

lemma stripe_Initialize:
  assumes "stripe X params originals rec blocks"
  shows "Initialize params blocks
           = Inr \<lparr>Params = params, Recovery = recovery_positions params blocks,
                  Original = original_positions params blocks,
                  ErasuresIndices = missing_originals params blocks\<rparr>"
  using assms by (simp add: stripe_def supplied_def Initialize_def)

lemma stripe_row_0:
  assumes "stripe X params originals rec blocks" and "j < length originals"
  shows "matrix_element X 0 j = 1"
  by (rule matrix_element_row_0)

lemma stripe_recovery_block:
  assumes s: "stripe X params originals rec blocks" and i: "i < nat (RecoveryCount params)"
  shows "length (recovery_slice params rec i) = nat (BlockBytes params) \<and>
         (\<forall>p<nat (BlockBytes params).
            Abs_gf256 (recovery_slice params rec i ! p)
              = (\<Sum>j<length originals. Abs_gf256 (matrix_element X i j)
                                          * Abs_gf256 (Block (originals ! j) ! p)))"
proof -
  have len: "list_all (\<lambda>b. length (Block b) = nat (BlockBytes params)) originals"
    and enc: "Encode X params originals = Inr rec"
    using s by (simp_all add: stripe_def)
  have e: "length (EncodeOneDataBlock X params originals (OriginalCount params + int i'))
           = nat (BlockBytes params) \<and>
         (\<forall>p<nat (BlockBytes params).
            Abs_gf256 (EncodeOneDataBlock X params originals (OriginalCount params + int i') ! p)
              = (\<Sum>j<length originals. Abs_gf256 (matrix_element X i' j)
                                          * Abs_gf256 (Block (originals ! j) ! p)))" for i'
    using EncodeOneDataBlock_correct [OF len stripe_params(7) [OF s] stripe_row_0 [OF s],
        of "int i'"]
    by simp
  from Encode_slices [OF enc _ i] e
  have "recovery_slice params rec i
          = EncodeOneDataBlock X params originals (OriginalCount params + int i)"
    by blast
  with e [of i] show ?thesis by simp
qed

lemma stripe_recovery_position:
  assumes s: "stripe X params originals rec blocks"
    and pos: "pos \<in> set (recovery_positions params blocks)"
  shows "pos < length blocks" and "\<not> is_original params (blocks ! pos)"
    and "recovery_row params (blocks ! pos) < nat (RecoveryCount params)"
    and "Block (blocks ! pos) = recovery_slice params rec (recovery_row params (blocks ! pos))"
    and "uint (Index (blocks ! pos))
           = OriginalCount params + int (recovery_row params (blocks ! pos))"
proof -
  from pos show p: "pos < length blocks" and n: "\<not> is_original params (blocks ! pos)"
    by (simp_all add: set_recovery_positions)
  from p have mem: "blocks ! pos \<in> set blocks" by simp
  with s have "uint (Index (blocks ! pos)) < OriginalCount params + RecoveryCount params"
    by (simp add: stripe_def supplied_def list_all_iff)
  with n show "recovery_row params (blocks ! pos) < nat (RecoveryCount params)"
    and "uint (Index (blocks ! pos))
           = OriginalCount params + int (recovery_row params (blocks ! pos))"
    by (simp_all add: recovery_row_def is_original_def)
  from mem s have "supplied_block params originals rec (blocks ! pos)"
    by (simp add: stripe_def supplied_def list_all_iff)
  with n show "Block (blocks ! pos)
                 = recovery_slice params rec (recovery_row params (blocks ! pos))"
    by (simp add: supplied_block_def)
qed

lemma stripe_original_position:
  assumes s: "stripe X params originals rec blocks"
    and q: "q \<in> set (original_positions params blocks)"
  shows "unat (Index (blocks ! q)) < length originals"
    and "Block (blocks ! q) = Block (originals ! unat (Index (blocks ! q)))"
    and "length (Block (blocks ! q)) = nat (BlockBytes params)"
proof -
  from q have p: "q < length blocks" and o: "is_original params (blocks ! q)"
    by (simp_all add: set_original_positions)
  from o show u: "unat (Index (blocks ! q)) < length originals"
    by (simp add: is_original_iff stripe_params(3) [OF s])
  from p s have "supplied_block params originals rec (blocks ! q)"
    by (simp add: stripe_def supplied_def list_all_iff)
  with o show b: "Block (blocks ! q) = Block (originals ! unat (Index (blocks ! q)))"
    by (simp add: supplied_block_def)
  from u show "length (Block (blocks ! q)) = nat (BlockBytes params)"
    unfolding b by (intro stripe_params(9) [OF s]) simp
qed

lemma stripe_missing_original:
  assumes s: "stripe X params originals rec blocks"
    and t: "t < length (missing_originals params blocks)"
  shows "unat (missing_originals params blocks ! t) < length originals"
    and "length (Block (originals ! unat (missing_originals params blocks ! t)))
           = nat (BlockBytes params)"
proof -
  from missing_original_less [OF stripe_params(5) [OF s], of "missing_originals params blocks ! t" blocks] t
  show u: "unat (missing_originals params blocks ! t) < length originals"
    by (simp add: stripe_params(3) [OF s])
  then show "length (Block (originals ! unat (missing_originals params blocks ! t)))
           = nat (BlockBytes params)"
    by (intro stripe_params(9) [OF s]) simp
qed

text \<open>
  The right-hand side: after the contributions of the supplied originals are added, the
  buffer of a recovery holds the combination of the missing originals alone.
\<close>

lemma stripe_subtract_originals:
  assumes s: "stripe X params originals rec blocks"
    and pos: "pos \<in> set (recovery_positions params blocks)"
    and dec: "dec = \<lparr>Params = params, Recovery = recovery_positions params blocks,
                      Original = original_positions params blocks,
                      ErasuresIndices = missing_originals params blocks\<rparr>"
  shows "length (subtract_originals X dec blocks pos) = nat (BlockBytes params) \<and>
         (\<forall>p<nat (BlockBytes params).
            Abs_gf256 (subtract_originals X dec blocks pos ! p)
              = (\<Sum>t<length (missing_originals params blocks).
                   Abs_gf256 (matrix_element X (recovery_row params (blocks ! pos))
                                (unat (missing_originals params blocks ! t)))
                   * Abs_gf256 (Block (originals ! unat (missing_originals params blocks ! t)) ! p)))"
proof -
  let ?n = "nat (BlockBytes params)"
  let ?row = "recovery_row params (blocks ! pos)"
  let ?Op = "original_positions params blocks"
  let ?c = "\<lambda>q. matrix_element X ?row (unat (Index (blocks ! q)))"
  let ?src = "\<lambda>q. Block (blocks ! q)"
  let ?r = "fold (\<lambda>q b. gf256_muladd_mem b (?c q) (?src q) (BlockBytes params)) ?Op
              (Block (blocks ! pos))"
  note rp = stripe_recovery_position [OF s pos]
  note rb = stripe_recovery_block [OF s rp(3)]
  have sub: "subtract_originals X dec blocks pos = ?r"
  proof -
    have "(\<lambda>q acc. let c = ?c q
                   in if c = 1 then gf256_add_mem acc (?src q) (BlockBytes params)
                      else gf256_muladd_mem acc c (?src q) (BlockBytes params))
            = (\<lambda>q b. gf256_muladd_mem b (?c q) (?src q) (BlockBytes params))"
      by (intro ext) (simp add: Let_def gf256_add_mem_muladd)
    then show ?thesis by (simp add: subtract_originals_def dec Let_def)
  qed
  from fold_gf256_muladd_mem [of ?Op ?src "BlockBytes params" "Block (blocks ! pos)" ?c]
    stripe_original_position(3) [OF s] rb rp(4)
  have r: "length ?r = ?n"
    "\<And>p. p < ?n \<Longrightarrow> Abs_gf256 (?r ! p)
       = Abs_gf256 (Block (blocks ! pos) ! p)
         + (\<Sum>q\<leftarrow>?Op. Abs_gf256 (?c q) * Abs_gf256 (?src q ! p))"
    by simp_all
  have "Abs_gf256 (?r ! p)
          = (\<Sum>t<length (missing_originals params blocks).
               Abs_gf256 (matrix_element X ?row (unat (missing_originals params blocks ! t)))
               * Abs_gf256 (Block (originals ! unat (missing_originals params blocks ! t)) ! p))"
    if p: "p < ?n" for p
  proof -
    let ?f = "\<lambda>j. Abs_gf256 (matrix_element X ?row j) * Abs_gf256 (Block (originals ! j) ! p)"
    have "(\<Sum>q\<leftarrow>?Op. Abs_gf256 (?c q) * Abs_gf256 (?src q ! p))
            = (\<Sum>q\<leftarrow>?Op. ?f (unat (Index (blocks ! q))))"
      by (rule arg_cong [where f = sum_list], rule map_cong)
        (simp_all add: stripe_original_position(2) [OF s, symmetric])
    moreover have "Abs_gf256 (Block (blocks ! pos) ! p) = (\<Sum>j<nat (OriginalCount params). ?f j)"
      using rb p by (simp add: rp(4) stripe_params(3) [OF s])
    ultimately have "Abs_gf256 (?r ! p)
        = (\<Sum>j<nat (OriginalCount params). ?f j)
          + (\<Sum>q\<leftarrow>?Op. ?f (unat (Index (blocks ! q))))"
      using r(2) [OF p] by simp
    also have "\<dots> = (\<Sum>t<length (missing_originals params blocks).
                       ?f (unat (missing_originals params blocks ! t)))"
      by (rule sum_missing_originals [OF stripe_params(5,8) [OF s]])
    finally show ?thesis .
  qed
  with r(1) sub show ?thesis by simp
qed

section \<open>The two paths of the decoder on a stripe\<close>

lemma Abs_gf256_nth_eqI:
  assumes "length a = n" and "length b = n"
    and "\<And>p. p < n \<Longrightarrow> Abs_gf256 (a ! p) = Abs_gf256 (b ! p)"
  shows "a = b"
  using assms by (intro nth_equalityI) (simp_all add: Abs_gf256_inject)

lemma stripe_coefficient:
  assumes s: "stripe X params originals rec blocks"
    and i: "i < nat (RecoveryCount params)"
    and t: "t < length (missing_originals params blocks)"
  shows "X i \<noteq> missing_originals params blocks ! t"
    and "Abs_gf256 (matrix_element X i (unat (missing_originals params blocks ! t)))
           = (Abs_gf256 (X 0) - Abs_gf256 (missing_originals params blocks ! t))
             / (Abs_gf256 (X i) - Abs_gf256 (missing_originals params blocks ! t))"
proof -
  let ?e = "missing_originals params blocks ! t"
  have e: "of_nat (unat ?e) = ?e" by simp
  from stripe_missing_original(1) [OF s t]
  have u: "unat ?e < nat (OriginalCount params)" by (simp add: stripe_params(3) [OF s])
  from disjoint_assignmentD(1) [OF stripe_params(2) [OF s] i u]
  show ne: "X i \<noteq> ?e" by simp
  from disjoint_assignmentD(1) [OF stripe_params(2) [OF s] stripe_params(6) [OF s] u]
  have ne0: "X 0 \<noteq> ?e" by simp
  show "Abs_gf256 (matrix_element X i (unat ?e))
          = (Abs_gf256 (X 0) - Abs_gf256 ?e) / (Abs_gf256 (X i) - Abs_gf256 ?e)"
    by (rule Abs_matrix_element [of X "unat ?e" i, unfolded e, OF ne0 ne])
qed

lemma subtract_originals_row_0:
  assumes "recovery_row (Params dec) (blocks ! pos) = 0"
  shows "subtract_originals X dec blocks pos
           = fold (\<lambda>q acc. gf256_add_mem acc (Block (blocks ! q)) (BlockBytes (Params dec)))
               (Original dec) (Block (blocks ! pos))"
  using assms by (simp add: subtract_originals_def Let_def matrix_element_row_0)

lemma stripe_DecodeM1:
  assumes s: "stripe X params originals rec blocks"
    and dec: "dec = \<lparr>Params = params, Recovery = recovery_positions params blocks,
                      Original = original_positions params blocks,
                      ErasuresIndices = missing_originals params blocks\<rparr>"
    and R: "recovery_positions params blocks = [pos]"
    and E: "missing_originals params blocks = [e]"
  shows "DecodeM1 X dec blocks = blocks[pos := \<lparr>Block = Block (originals ! unat e), Index = e\<rparr>]"
proof -
  let ?n = "nat (BlockBytes params)"
  let ?row = "recovery_row params (blocks ! pos)"
  let ?g = "matrix_element X ?row (unat e)"
  let ?b = "subtract_originals X dec blocks pos"
  have pos: "pos \<in> set (recovery_positions params blocks)" by (simp add: R)
  note rp = stripe_recovery_position [OF s pos]
  from stripe_subtract_originals [OF s pos dec]
  have b: "length ?b = ?n"
    "\<And>p. p < ?n \<Longrightarrow> Abs_gf256 (?b ! p)
       = Abs_gf256 ?g * Abs_gf256 (Block (originals ! unat e) ! p)"
    by (simp_all add: E)
  from stripe_missing_original [OF s, of 0]
  have o: "unat e < length originals" "length (Block (originals ! unat e)) = ?n"
    by (simp_all add: E)
  from stripe_coefficient [OF s rp(3), of 0]
  have g: "X ?row \<noteq> e"
    "Abs_gf256 ?g = (Abs_gf256 (X 0) - Abs_gf256 e) / (Abs_gf256 (X ?row) - Abs_gf256 e)"
    by (simp_all add: E)
  from stripe_coefficient(1) [OF s stripe_params(6) [OF s], of 0]
  have g0: "X 0 \<noteq> e" by (simp add: E)
  from g g0 have gnz: "Abs_gf256 ?g \<noteq> 0" by (simp add: Abs_gf256_inject)
  let ?b' = "if ?row = 0 then ?b else gf256_mul_mem ?b ?b (gf256_inv_entry ?g) (BlockBytes params)"
  have "?b' = Block (originals ! unat e)"
  proof (rule Abs_gf256_nth_eqI [of _ ?n])
    show "length ?b' = ?n" using b(1) by (simp add: length_gf256_mul_mem)
    show "length (Block (originals ! unat e)) = ?n" by (rule o(2))
    show "Abs_gf256 (?b' ! p) = Abs_gf256 (Block (originals ! unat e) ! p)" if "p < ?n" for p
    proof (cases "?row = 0")
      case True
      from stripe_row_0 [OF s o(1)] True b(2) [OF that] show ?thesis
        by (simp add: Abs_gf256_1)
    next
      case False
      with b that gnz show ?thesis
        by (simp add: nth_gf256_mul_mem Abs_gf256_mul Abs_gf256_inv)
    qed
  qed
  moreover have d: "Recovery dec = [pos]" "ErasuresIndices dec = [e]" "Params dec = params"
    by (simp_all add: dec R E)
  moreover have "fold (\<lambda>q acc. gf256_add_mem acc (Block (blocks ! q)) (BlockBytes params))
                   (Original dec) (Block (blocks ! pos)) = ?b" if "?row = 0"
    using subtract_originals_row_0 [of dec blocks pos X] that by (simp add: d(3))
  ultimately show ?thesis
    by (cases "?row = 0") (simp_all add: DecodeM1_def Let_def)
qed

lemma stripe_rows_inj:
  assumes s: "stripe X params originals rec blocks"
    and i: "i < length (recovery_positions params blocks)"
    and j: "j < length (recovery_positions params blocks)"
    and eq: "X (recovery_row params (blocks ! (recovery_positions params blocks ! i)))
             = X (recovery_row params (blocks ! (recovery_positions params blocks ! j)))"
  shows "i = j"
proof -
  let ?Rp = "recovery_positions params blocks"
  have pi: "?Rp ! i \<in> set ?Rp" and pj: "?Rp ! j \<in> set ?Rp" using i j by simp_all
  note ri = stripe_recovery_position [OF s pi] and rj = stripe_recovery_position [OF s pj]
  from disjoint_assignmentD(2) [OF stripe_params(2) [OF s]] ri(3) rj(3) eq
  have "recovery_row params (blocks ! (?Rp ! i)) = recovery_row params (blocks ! (?Rp ! j))"
    by (auto dest: inj_onD)
  with ri(5) rj(5) have "uint (Index (blocks ! (?Rp ! i))) = uint (Index (blocks ! (?Rp ! j)))"
    by simp
  then have "Index (blocks ! (?Rp ! i)) = Index (blocks ! (?Rp ! j))"
    by (simp add: word_uint_eq_iff)
  with stripe_params(8) [OF s] ri(1) rj(1) have "?Rp ! i = ?Rp ! j"
    by (auto simp add: distinct_conv_nth)
  with distinct_positions(2) [of params blocks] i j show "i = j"
    by (auto simp add: distinct_conv_nth)
qed

lemma stripe_DecodeM:
  assumes s: "stripe X params originals rec blocks"
    and dec: "dec = \<lparr>Params = params, Recovery = recovery_positions params blocks,
                      Original = original_positions params blocks,
                      ErasuresIndices = missing_originals params blocks\<rparr>"
    and m: "length (missing_originals params blocks) = length (recovery_positions params blocks)"
  shows "\<exists>out. DecodeM X dec blocks = Some out \<and> length out = length blocks \<and>
           (\<forall>i<length (recovery_positions params blocks).
              out ! (recovery_positions params blocks ! i)
                = \<lparr>Block = Block (originals ! unat (missing_originals params blocks ! i)),
                    Index = missing_originals params blocks ! i\<rparr>) \<and>
           (\<forall>q. q \<notin> set (recovery_positions params blocks) \<longrightarrow> out ! q = blocks ! q)"
proof -
  let ?n = "nat (BlockBytes params)"
  let ?Rp = "recovery_positions params blocks"
  let ?E = "missing_originals params blocks"
  let ?m = "length ?Rp"
  let ?rows = "map (\<lambda>pos. recovery_row params (blocks ! pos)) ?Rp"
  let ?M = "map (\<lambda>row. map (\<lambda>e. matrix_element X row (unat e)) ?E) ?rows"
  let ?bs = "map (subtract_originals X dec blocks) ?Rp"
  let ?x = "\<lambda>t p. Abs_gf256 (Block (originals ! unat (?E ! t)) ! p)"
  let ?xv = "\<lambda>i. Abs_gf256 (X (?rows ! i))"
  let ?yv = "\<lambda>t. Abs_gf256 (?E ! t)"
  let ?v = "\<lambda>t. Abs_gf256 (X 0) - Abs_gf256 (?E ! t)"
  have row: "?rows ! i < nat (RecoveryCount params)" if "i < ?m" for i
    using stripe_recovery_position(3) [OF s, of "?Rp ! i"] that by simp
  have M: "length ?M = ?m" "\<And>i. i < ?m \<Longrightarrow> length (?M ! i) = ?m"
    by (simp_all add: m)
  have Mnth: "Abs_gf256 (?M ! i ! t) = ?v t / (?xv i - ?yv t)" if "i < ?m" "t < ?m" for i t
    using stripe_coefficient(2) [OF s row [OF that(1)], of t] that by (simp add: m)
  have piv: "ldu_D (\<lambda>i t. Abs_gf256 (?M ! i ! t)) q \<noteq> 0" if "q < ?m" for q
  proof (rule cauchy_pivot_nonzero [of ?m _ ?v ?xv ?yv])
    show "Abs_gf256 (?M ! i ! t) = ?v t / (?xv i - ?yv t)" if "i < ?m" "t < ?m" for i t
      by (rule Mnth [OF that])
    show "?xv i \<noteq> ?yv t" if "i < ?m" "t < ?m" for i t
      using stripe_coefficient(1) [OF s row [OF that(1)], of t] that
      by (simp add: m Abs_gf256_inject)
    show "inj_on ?xv {..<?m}"
    proof (rule inj_onI)
      fix i j assume "i \<in> {..<?m}" "j \<in> {..<?m}" "?xv i = ?xv j"
      then show "i = j"
        using stripe_rows_inj [OF s, of i j] by (simp add: Abs_gf256_inject)
    qed
    show "inj_on ?yv {..<?m}"
    proof (rule inj_onI)
      fix i j assume "i \<in> {..<?m}" "j \<in> {..<?m}" "?yv i = ?yv j"
      with distinct_missing_originals [OF stripe_params(5) [OF s], of blocks]
      show "i = j" by (auto simp add: distinct_conv_nth m Abs_gf256_inject)
    qed
    show "?v t \<noteq> 0" if "t < ?m" for t
      using stripe_coefficient(1) [OF s stripe_params(6) [OF s], of t] that
      by (simp add: m Abs_gf256_inject)
    show "q < ?m" by (rule that)
  qed
  have bs: "length ?bs = ?m" "\<And>i. i < ?m \<Longrightarrow> length (?bs ! i) = nat (BlockBytes params)"
    using stripe_subtract_originals [OF s _ dec] by simp_all
  have rhs: "Abs_gf256 (?bs ! i ! p) = (\<Sum>t<?m. Abs_gf256 (?M ! i ! t) * ?x t p)"
    if "i < ?m" "p < nat (BlockBytes params)" for i p
  proof -
    from stripe_subtract_originals [OF s _ dec, of "?Rp ! i"] that
    have "Abs_gf256 (?bs ! i ! p)
            = (\<Sum>t<?m. Abs_gf256 (matrix_element X (?rows ! i) (unat (?E ! t))) * ?x t p)"
      by (simp add: m)
    also have "\<dots> = (\<Sum>t<?m. Abs_gf256 (?M ! i ! t) * ?x t p)"
      using that(1) by (intro sum.cong) (simp_all add: m)
    finally show ?thesis .
  qed
  from solve_correct [of ?M ?m ?bs "BlockBytes params" ?x, OF M piv bs rhs]
  obtain L D U where ldu: "GenerateLDUDecomposition ?M = Some (L, D, U)"
    and xs: "length (back_substitute U (BlockBytes params)
               (divide_diagonal D (BlockBytes params)
                 (forward_substitute L (BlockBytes params) ?bs))) = ?m"
      "\<And>i. i < ?m \<Longrightarrow>
         length (back_substitute U (BlockBytes params)
               (divide_diagonal D (BlockBytes params)
                 (forward_substitute L (BlockBytes params) ?bs)) ! i) = ?n"
      "\<And>i p. i < ?m \<Longrightarrow> p < ?n \<Longrightarrow>
         Abs_gf256 (back_substitute U (BlockBytes params)
               (divide_diagonal D (BlockBytes params)
                 (forward_substitute L (BlockBytes params) ?bs)) ! i ! p) = ?x i p"
    by blast
  define xs where "xs = back_substitute U (BlockBytes params)
               (divide_diagonal D (BlockBytes params)
                 (forward_substitute L (BlockBytes params) ?bs))"
  have xsi: "xs ! i = Block (originals ! unat (?E ! i))" if "i < ?m" for i
  proof (rule Abs_gf256_nth_eqI [of _ ?n])
    show "length (xs ! i) = ?n" using xs(2) [OF that] by (simp add: xs_def)
    show "length (Block (originals ! unat (?E ! i))) = ?n"
      using stripe_missing_original(2) [OF s, of i] that by (simp add: m)
    show "Abs_gf256 (xs ! i ! p) = Abs_gf256 (Block (originals ! unat (?E ! i)) ! p)"
      if "p < ?n" for p
      using xs(3) [OF \<open>i < ?m\<close> that] by (simp add: xs_def)
  qed
  let ?g = "\<lambda>xe :: uint8 list \<times> uint8. \<lparr>Block = fst xe, Index = snd xe\<rparr>"
  let ?out = "fold (\<lambda>pv ys. ys[fst pv := ?g (snd pv)]) (zip ?Rp (zip xs ?E)) blocks"
  have out: "DecodeM X dec blocks = Some ?out"
    using ldu by (simp add: DecodeM_def dec Let_def xs_def case_prod_unfold)
  have lz: "length (zip xs ?E) = length ?Rp"
    using xs(1) by (simp add: xs_def m)
  from fold_list_update [of ?Rp "zip xs ?E" blocks ?g, OF distinct_positions(2) lz]
    stripe_recovery_position(1) [OF s]
  have fu: "length ?out = length blocks"
    "\<And>i. i < ?m \<Longrightarrow> ?out ! (?Rp ! i) = ?g (zip xs ?E ! i)"
    "\<And>q. q \<notin> set ?Rp \<Longrightarrow> ?out ! q = blocks ! q"
    by simp_all
  have "?out ! (?Rp ! i)
          = \<lparr>Block = Block (originals ! unat (?E ! i)), Index = ?E ! i\<rparr>" if "i < ?m" for i
    using fu(2) [OF that] xsi [OF that] that xs(1) by (simp add: xs_def [symmetric] m)
  with out fu(1,3) show ?thesis by blast
qed

section \<open>Decoding a stripe\<close>

lemma stripe_Decode:
  assumes s: "stripe X params originals rec blocks"
  shows "\<exists>out. Decode X params blocks = Inr out \<and> length out = length blocks \<and>
           (\<forall>i<length (recovery_positions params blocks).
              out ! (recovery_positions params blocks ! i)
                = \<lparr>Block = Block (originals ! unat (missing_originals params blocks ! i)),
                    Index = missing_originals params blocks ! i\<rparr>) \<and>
           (\<forall>q. q \<notin> set (recovery_positions params blocks) \<longrightarrow> out ! q = blocks ! q)"
proof -
  let ?Rp = "recovery_positions params blocks"
  let ?E = "missing_originals params blocks"
  define dec where "dec = \<lparr>Params = params, Recovery = ?Rp,
                      Original = original_positions params blocks,
                      ErasuresIndices = ?E\<rparr>"
  have init: "Initialize params blocks = Inr dec"
    unfolding dec_def by (rule stripe_Initialize [OF s])
  from Initialize_counts [OF init]
  have m: "length ?E = length ?Rp"
    by (simp add: dec_def)
  have f: "ErasuresIndices dec = ?E" "Recovery dec = ?Rp" by (simp_all add: dec_def)
  consider "?E = []" | "length ?E = 1" | "?E \<noteq> []" "length ?E \<noteq> 1" by blast
  then show ?thesis
  proof cases
    case 1
    with m have "?Rp = []" by simp
    with 1 init f show ?thesis by (simp add: Decode_def)
  next
    case 2
    then obtain e where E: "?E = [e]" by (cases ?E) simp_all
    from 2 m obtain pos where R: "?Rp = [pos]" by (cases ?Rp) simp_all
    have pos: "pos \<in> set ?Rp" by (simp add: R)
    from stripe_DecodeM1 [OF s dec_def R E] init f E m
    have out: "Decode X params blocks
                 = Inr (blocks[pos := \<lparr>Block = Block (originals ! unat e), Index = e\<rparr>])"
      by (simp add: Decode_def)
    from stripe_recovery_position(1) [OF s pos] show ?thesis
      unfolding out by (simp add: R E)
  next
    case 3
    from stripe_DecodeM [OF s dec_def m] obtain out where
      "DecodeM X dec blocks = Some out" and
      out: "length out = length blocks"
        "\<forall>i<length ?Rp. out ! (?Rp ! i)
           = \<lparr>Block = Block (originals ! unat (?E ! i)), Index = ?E ! i\<rparr>"
        "\<forall>q. q \<notin> set ?Rp \<longrightarrow> out ! q = blocks ! q"
      by blast
    with 3 init f m have "Decode X params blocks = Inr out"
      by (simp add: Decode_def)
    with out show ?thesis by blast
  qed
qed

section \<open>Assignments that meet the disjointness requirement\<close>

lemma Encode_succeeds:
  "valid_params params \<Longrightarrow> int (length originals) = OriginalCount params
     \<Longrightarrow> \<exists>rec. Encode X params originals = Inr rec"
  by (simp add: Encode_def)

text \<open>
  The assignment of the model meets the disjointness requirement for every valid
  parameter set. The assignment that the spec names meets it when neither count exceeds
  128, and fails it when one does.
\<close>

lemma disjoint_index_assignment:
  assumes "valid_params params"
  shows "disjoint_assignment params (index_assignment params)"
proof -
  let ?k = "nat (OriginalCount params)" and ?r = "nat (RecoveryCount params)"
  from assms have "0 \<le> OriginalCount params" "0 \<le> RecoveryCount params"
    "OriginalCount params + RecoveryCount params \<le> 256"
    by (simp_all add: valid_params_def)
  then have kr: "?k + ?r \<le> 256" by linarith
  have "(of_nat (?k + i) :: uint8) \<noteq> of_nat j" if "i < ?r" "j < ?k" for i j
    using uint8_of_nat_inj [of "?k + i" j] that kr by auto
  moreover have "distinct (map (\<lambda>i. of_nat (?k + i) :: uint8) [0..<?r])"
  proof -
    have "inj_on (\<lambda>i. of_nat (?k + i) :: uint8) (set [0..<?r])"
    proof (rule inj_onI)
      fix i j assume "i \<in> set [0..<?r]" "j \<in> set [0..<?r]"
        "(of_nat (?k + i) :: uint8) = of_nat (?k + j)"
      with uint8_of_nat_inj [of "?k + i" "?k + j"] kr show "i = j" by auto
    qed
    then show ?thesis by (simp add: distinct_map)
  qed
  moreover have "index_assignment params = (\<lambda>i. of_nat (?k + i))"
    by (intro ext) (simp add: index_assignment_def)
  ultimately show ?thesis
    by (simp add: disjoint_assignment_def list_all_iff)
qed

lemma disjoint_spec_assignment:
  assumes "valid_params params"
    and "OriginalCount params \<le> 128" and "RecoveryCount params \<le> 128"
  shows "disjoint_assignment params (spec_assignment params)"
proof -
  let ?k = "nat (OriginalCount params)" and ?r = "nat (RecoveryCount params)"
  from assms have kr: "?k \<le> 128" "?r \<le> 128" by simp_all
  have "spec_assignment params i \<noteq> of_nat j" if "i < ?r" "j < ?k" for i j
  proof
    assume "spec_assignment params i = of_nat j"
    then have "(of_nat (?r - 1 - i + 128) :: uint8) = of_nat j"
      by (simp only: spec_assignment_def)
    moreover have "?r - 1 - i + 128 < 256" "j < 256" using that kr by simp_all
    ultimately have "?r - 1 - i + 128 = j" by (rule uint8_of_nat_inj [rotated 2])
    with that kr show False by simp
  qed
  moreover have "distinct (map (spec_assignment params) [0..<?r])"
  proof -
    have "inj_on (spec_assignment params) (set [0..<?r])"
    proof (rule inj_onI)
      fix i j assume ij: "i \<in> set [0..<?r]" "j \<in> set [0..<?r]"
        and "spec_assignment params i = spec_assignment params j"
      then have "(of_nat (?r - 1 - i + 128) :: uint8) = of_nat (?r - 1 - j + 128)"
        by (simp only: spec_assignment_def)
      moreover have "?r - 1 - i + 128 < 256" "?r - 1 - j + 128 < 256" using ij kr by simp_all
      ultimately have "?r - 1 - i + 128 = ?r - 1 - j + 128"
        by (rule uint8_of_nat_inj [rotated 2])
      with ij show "i = j" by simp
    qed
    then show ?thesis by (simp add: distinct_map)
  qed
  ultimately show ?thesis
    by (simp add: disjoint_assignment_def list_all_iff)
qed

lemma spec_assignment_collision:
  assumes "valid_params params"
    and "128 < OriginalCount params \<or> 128 < RecoveryCount params"
  shows "\<not> disjoint_assignment params (spec_assignment params)"
proof
  let ?k = "nat (OriginalCount params)" and ?r = "nat (RecoveryCount params)"
  assume "disjoint_assignment params (spec_assignment params)"
  then have d: "\<And>i j. i < ?r \<Longrightarrow> j < ?k \<Longrightarrow> spec_assignment params i \<noteq> of_nat j"
    by (rule disjoint_assignmentD(1))
  from assms(1) have pos: "0 < ?k" "0 < ?r"
    by (simp_all add: valid_params_def)
  from assms(2) show False
  proof
    assume "128 < OriginalCount params"
    then have "128 < ?k" by simp
    with d [of "?r - 1" 128] pos show False by (simp add: spec_assignment_def)
  next
    assume "128 < RecoveryCount params"
    then have r: "128 < ?r" by simp
    then have "?r - 1 - (?r - 129) + 128 = 256" by simp
    then have "spec_assignment params (?r - 129) = 0"
      by (simp only: spec_assignment_def) simp
    with d [of "?r - 129" 0] pos r show False by simp
  qed
qed

section \<open>The round trip\<close>

lemma stripeI:
  assumes "valid_params params" and "disjoint_assignment params X"
    and "int (length originals) = OriginalCount params"
    and "list_all (\<lambda>b. length (Block b) = nat (BlockBytes params)) originals"
    and "Encode X params originals = Inr recoveryBlocks"
    and "supplied params originals recoveryBlocks blocks"
  shows "stripe X params originals recoveryBlocks blocks"
  using assms by (simp add: stripe_def)

lemma stripe_position_cases:
  assumes s: "stripe X params originals rec blocks" and q: "q < length blocks"
  obtains (recovery) i where "i < length (recovery_positions params blocks)"
      "q = recovery_positions params blocks ! i"
      "\<not> is_original params (blocks ! q)"
  | (original) "q \<notin> set (recovery_positions params blocks)"
      "q \<in> set (original_positions params blocks)" "is_original params (blocks ! q)"
proof (cases "is_original params (blocks ! q)")
  case True
  with q show ?thesis
    by (intro original) (simp_all add: set_recovery_positions set_original_positions)
next
  case False
  with q have "q \<in> set (recovery_positions params blocks)"
    by (simp add: set_recovery_positions)
  then obtain i where "i < length (recovery_positions params blocks)"
    "q = recovery_positions params blocks ! i"
    by (auto simp add: in_set_conv_nth)
  with False show ?thesis by (intro recovery) simp_all
qed

lemma stripe_round_trip:
  assumes s: "stripe X params originals recoveryBlocks blocks"
  shows "\<exists>out. Decode X params blocks = Inr out \<and> length out = length originals \<and>
           (\<forall>j<length originals. \<exists>b\<in>set out. Index b = of_nat j \<and>
                                     Block b = Block (originals ! j)) \<and>
           (\<forall>b\<in>set out. unat (Index b) < length originals \<and>
                         Block b = Block (originals ! unat (Index b)))"
proof -
  let ?Rp = "recovery_positions params blocks"
  let ?E = "missing_originals params blocks"
  from stripe_Decode [OF s] obtain out where dec: "Decode X params blocks = Inr out"
    and len: "length out = length blocks"
    and rec: "\<And>i. i < length ?Rp \<Longrightarrow>
                out ! (?Rp ! i) = \<lparr>Block = Block (originals ! unat (?E ! i)), Index = ?E ! i\<rparr>"
    and org: "\<And>q. q \<notin> set ?Rp \<Longrightarrow> out ! q = blocks ! q"
    by blast
  have m: "length ?E = length ?Rp"
    using Initialize_counts [OF stripe_Initialize [OF s]] by simp
  have k256: "length originals \<le> 256"
    using stripe_params(3,5) [OF s] by simp
  have each: "unat (Index (out ! q)) < length originals \<and>
              Block (out ! q) = Block (originals ! unat (Index (out ! q)))"
    if "q < length blocks" for q
    using s that
  proof (cases rule: stripe_position_cases)
    case (recovery i)
    with rec [of i] stripe_missing_original(1) [OF s, of i] m show ?thesis by simp
  next
    case original
    with org [of q] stripe_original_position(1,2) [OF s, of q] show ?thesis by simp
  qed
  have all: "\<exists>b\<in>set out. Index b = of_nat j \<and> Block b = Block (originals ! j)"
    if j: "j < length originals" for j
  proof (cases "of_nat j \<in> Index ` set blocks")
    case True
    then obtain q where q: "q < length blocks" "Index (blocks ! q) = of_nat j"
      by (auto simp add: in_set_conv_nth)
    with j k256 have u: "unat (Index (blocks ! q)) = j" by (simp add: unat_uint8_of_nat)
    with j have "is_original params (blocks ! q)"
      by (simp add: is_original_iff stripe_params(3) [OF s])
    with q(1) have "q \<notin> set ?Rp" "q \<in> set (original_positions params blocks)"
      by (simp_all add: set_recovery_positions set_original_positions)
    with org [of q] stripe_original_position(2) [OF s, of q] q u
    have "Index (out ! q) = of_nat j \<and> Block (out ! q) = Block (originals ! j)" by simp
    moreover have "out ! q \<in> set out" using q(1) len by simp
    ultimately show ?thesis by blast
  next
    case False
    with j have "of_nat j \<in> set ?E"
      by (auto simp add: set_missing_originals stripe_params(3) [OF s])
    then obtain i where i: "i < length ?E" "?E ! i = of_nat j"
      by (auto simp add: in_set_conv_nth)
    with j k256 have u: "unat (?E ! i) = j" by (simp add: unat_uint8_of_nat)
    from i m have ri: "i < length ?Rp" by simp
    then have "?Rp ! i \<in> set ?Rp" by simp
    with stripe_recovery_position(1) [OF s] len have "out ! (?Rp ! i) \<in> set out" by simp
    moreover from rec [OF ri] i(2) u
    have "Index (out ! (?Rp ! i)) = of_nat j \<and> Block (out ! (?Rp ! i)) = Block (originals ! j)"
      by simp
    ultimately show ?thesis by blast
  qed
  have "\<forall>b\<in>set out. unat (Index b) < length originals \<and>
                     Block b = Block (originals ! unat (Index b))"
    using each len by (auto simp add: in_set_conv_nth)
  with dec len all stripe_params(4) [OF s] show ?thesis by simp
qed

text \<open>
  C1. The round trip. Let the parameters be valid, the originals be as many as the
  original count and each of the block size, and \<open>Encode\<close> return the recovery blocks. Let
  the decoder be supplied with as many blocks as the original count, of distinct indices
  below the sum of the two counts, each holding the original or the recovery block of its
  index: any originals deleted, each replaced by a recovery block. Then \<open>Decode\<close> succeeds,
  and the blocks it returns are the originals, byte for byte: they are as many as the
  originals, every original index is the index of a block that holds that original, and
  every block holds the original of its index.
\<close>

theorem Encode_Decode_round_trip:
  assumes "valid_params params"
    and "int (length originals) = OriginalCount params"
    and "list_all (\<lambda>b. length (Block b) = nat (BlockBytes params)) originals"
    and "Encode (index_assignment params) params originals = Inr recoveryBlocks"
    and "supplied params originals recoveryBlocks blocks"
  shows "\<exists>out. Decode (index_assignment params) params blocks = Inr out \<and>
           length out = length originals \<and>
           (\<forall>j<length originals. \<exists>b\<in>set out. Index b = of_nat j \<and>
                                     Block b = Block (originals ! j)) \<and>
           (\<forall>b\<in>set out. unat (Index b) < length originals \<and>
                         Block b = Block (originals ! unat (Index b)))"
proof (rule stripe_round_trip)
  from assms(1) have "disjoint_assignment params (index_assignment params)"
    by (rule disjoint_index_assignment)
  with assms show "stripe (index_assignment params) params originals recoveryBlocks blocks"
    by (intro stripeI)
qed

theorem Encode_Decode_round_trip_witness:
  "\<exists>rec. Encode (index_assignment \<lparr>OriginalCount = 3, RecoveryCount = 2, BlockBytes = 1\<rparr>)
            \<lparr>OriginalCount = 3, RecoveryCount = 2, BlockBytes = 1\<rparr>
            [\<lparr>Block = [5], Index = 0\<rparr>, \<lparr>Block = [9], Index = 1\<rparr>, \<lparr>Block = [200], Index = 2\<rparr>]
          = Inr rec \<and>
     (\<exists>out. Decode (index_assignment \<lparr>OriginalCount = 3, RecoveryCount = 2, BlockBytes = 1\<rparr>)
              \<lparr>OriginalCount = 3, RecoveryCount = 2, BlockBytes = 1\<rparr>
              [\<lparr>Block = recovery_slice \<lparr>OriginalCount = 3, RecoveryCount = 2, BlockBytes = 1\<rparr> rec 1,
                 Index = 4\<rparr>,
               \<lparr>Block = [9], Index = 1\<rparr>,
               \<lparr>Block = recovery_slice \<lparr>OriginalCount = 3, RecoveryCount = 2, BlockBytes = 1\<rparr> rec 0,
                 Index = 3\<rparr>]
            = Inr out \<and> length out = 3 \<and>
            (\<exists>b\<in>set out. Index b = 0 \<and> Block b = [5]) \<and>
            (\<exists>b\<in>set out. Index b = 2 \<and> Block b = [200]))"
proof -
  let ?p = "\<lparr>OriginalCount = 3, RecoveryCount = 2, BlockBytes = 1\<rparr>"
  let ?os = "[\<lparr>Block = [5 :: uint8], Index = 0 :: uint8\<rparr>, \<lparr>Block = [9], Index = 1\<rparr>,
              \<lparr>Block = [200], Index = 2\<rparr>]"
  have v: "valid_params ?p" by (simp add: valid_params_def)
  have l: "int (length ?os) = OriginalCount ?p" by simp
  have b: "list_all (\<lambda>b. length (Block b) = nat (BlockBytes ?p)) ?os" by simp
  from Encode_succeeds [OF v l] obtain rec
    where e: "Encode (index_assignment ?p) ?p ?os = Inr rec" by blast
  let ?bs = "[\<lparr>Block = recovery_slice ?p rec 1, Index = 4 :: uint8\<rparr>,
              \<lparr>Block = [9], Index = 1\<rparr>,
              \<lparr>Block = recovery_slice ?p rec 0, Index = 3\<rparr>]"
  have s: "supplied ?p ?os rec ?bs"
    by (simp add: supplied_def supplied_block_def is_original_def recovery_row_def)
  from Encode_Decode_round_trip [OF v l b e s] obtain out
    where o: "Decode (index_assignment ?p) ?p ?bs = Inr out" "length out = length ?os"
      "\<forall>j<length ?os. \<exists>b\<in>set out. Index b = of_nat j \<and> Block b = Block (?os ! j)"
    by blast
  from spec [OF o(3), of 0] have "\<exists>b\<in>set out. Index b = of_nat 0 \<and> Block b = Block (?os ! 0)"
    by simp
  moreover from spec [OF o(3), of 2] have "\<exists>b\<in>set out. Index b = of_nat 2 \<and> Block b = Block (?os ! 2)"
    by simp
  ultimately have "(\<exists>b\<in>set out. Index b = 0 \<and> Block b = [5]) \<and>
            (\<exists>b\<in>set out. Index b = 2 \<and> Block b = [200])"
    by simp
  with o(2) have "length out = 3 \<and> (\<exists>b\<in>set out. Index b = 0 \<and> Block b = [5]) \<and>
            (\<exists>b\<in>set out. Index b = 2 \<and> Block b = [200])"
    by simp
  with o(1) have "\<exists>out. Decode (index_assignment ?p) ?p ?bs = Inr out \<and> length out = 3 \<and>
            (\<exists>b\<in>set out. Index b = 0 \<and> Block b = [5]) \<and>
            (\<exists>b\<in>set out. Index b = 2 \<and> Block b = [200])"
    by (intro exI [of _ out] conjI) simp_all
  with e show ?thesis by (intro exI [of _ rec] conjI)
qed

section \<open>The frame of the decoder\<close>

lemma length_fold_update:
  "length (fold (\<lambda>i bs. bs[i := f i bs]) ps bs) = length bs"
  by (induction ps arbitrary: bs) simp_all

lemma length_forward_substitute: "length (forward_substitute L bytes bs) = length bs"
  unfolding forward_substitute_def by (rule length_fold_update)

lemma length_divide_diagonal: "length (divide_diagonal D bytes bs) = length bs"
  by (simp add: divide_diagonal_def)

lemma length_back_substitute: "length (back_substitute U bytes bs) = length bs"
  unfolding back_substitute_def by (rule length_fold_update)

lemma DecodeM1_frame:
  assumes "Recovery dec = [pos]" and "ErasuresIndices dec = [e]"
  shows "\<exists>b. DecodeM1 X dec blocks = blocks[pos := \<lparr>Block = b, Index = e\<rparr>]"
proof (cases "recovery_row (Params dec) (blocks ! pos) = 0")
  case True
  with assms have "DecodeM1 X dec blocks
      = blocks[pos := \<lparr>Block = fold (\<lambda>q acc. gf256_add_mem acc (Block (blocks ! q))
                                            (BlockBytes (Params dec)))
                                   (Original dec) (Block (blocks ! pos)),
                        Index = e\<rparr>]"
    by (simp add: DecodeM1_def Let_def)
  then show ?thesis by (rule exI)
next
  case False
  with assms have "DecodeM1 X dec blocks
      = blocks[pos := \<lparr>Block = gf256_mul_mem (subtract_originals X dec blocks pos)
                                   (subtract_originals X dec blocks pos)
                                   (gf256_inv_entry
                                      (matrix_element X (recovery_row (Params dec) (blocks ! pos))
                                         (unat e)))
                                   (BlockBytes (Params dec)),
                        Index = e\<rparr>]"
    by (simp add: DecodeM1_def Let_def)
  then show ?thesis by (rule exI)
qed

lemma DecodeM_frame:
  assumes out: "DecodeM X dec blocks = Some out"
    and dist: "distinct (Recovery dec)"
    and m: "length (ErasuresIndices dec) = length (Recovery dec)"
    and bound: "\<And>p. p \<in> set (Recovery dec) \<Longrightarrow> p < length blocks"
  shows "length out = length blocks \<and>
         (\<forall>i<length (Recovery dec). Index (out ! (Recovery dec ! i)) = ErasuresIndices dec ! i) \<and>
         (\<forall>q. q \<notin> set (Recovery dec) \<longrightarrow> out ! q = blocks ! q)"
proof -
  let ?bytes = "BlockBytes (Params dec)"
  let ?A = "map (\<lambda>row. map (\<lambda>e. matrix_element X row (unat e)) (ErasuresIndices dec))
              (map (\<lambda>pos. recovery_row (Params dec) (blocks ! pos)) (Recovery dec))"
  let ?bs = "map (subtract_originals X dec blocks) (Recovery dec)"
  from out obtain L D U where ldu: "GenerateLDUDecomposition ?A = Some (L, D, U)"
    by (cases "GenerateLDUDecomposition ?A") (auto simp add: DecodeM_def Let_def)
  define xs where "xs = back_substitute U ?bytes
                          (divide_diagonal D ?bytes (forward_substitute L ?bytes ?bs))"
  let ?g = "\<lambda>xe :: uint8 list \<times> uint8. \<lparr>Block = fst xe, Index = snd xe\<rparr>"
  let ?out = "fold (\<lambda>pv ys. ys[fst pv := ?g (snd pv)])
                (zip (Recovery dec) (zip xs (ErasuresIndices dec))) blocks"
  from out ldu have o: "out = ?out"
    by (simp add: DecodeM_def Let_def xs_def case_prod_unfold)
  have lx: "length xs = length (Recovery dec)"
    by (simp add: xs_def length_back_substitute length_divide_diagonal
        length_forward_substitute)
  with m have lz: "length (zip xs (ErasuresIndices dec)) = length (Recovery dec)" by simp
  from fold_list_update [of "Recovery dec" "zip xs (ErasuresIndices dec)" blocks ?g,
      OF dist lz bound]
  have fu: "length ?out = length blocks"
    "\<And>i. i < length (Recovery dec) \<Longrightarrow>
       ?out ! (Recovery dec ! i) = ?g (zip xs (ErasuresIndices dec) ! i)"
    "\<And>q. q \<notin> set (Recovery dec) \<Longrightarrow> ?out ! q = blocks ! q"
    by simp_all
  have "Index (?out ! (Recovery dec ! i)) = ErasuresIndices dec ! i"
    if "i < length (Recovery dec)" for i
    using fu(2) [OF that] that lx m by simp
  with fu(1,3) show ?thesis unfolding o by blast
qed

text \<open>
  Whatever the assignment and the contents of the buffers: when \<open>Decode\<close> returns blocks,
  they are as many as were supplied, the \<open>i\<close>-th block with the index of a recovery has
  the index of the \<open>i\<close>-th missing original, and every other block is as it was.
\<close>

lemma Decode_Inr_frame:
  assumes "Decode X params blocks = Inr out"
  shows "length out = length blocks"
    and "length (missing_originals params blocks) = length (recovery_positions params blocks)"
    and "\<And>i. i < length (recovery_positions params blocks) \<Longrightarrow>
           Index (out ! (recovery_positions params blocks ! i)) = missing_originals params blocks ! i"
    and "\<And>q. q \<notin> set (recovery_positions params blocks) \<Longrightarrow> out ! q = blocks ! q"
proof -
  let ?Rp = "recovery_positions params blocks"
  let ?E = "missing_originals params blocks"
  from assms obtain dec where init: "Initialize params blocks = Inr dec"
    by (cases "Initialize params blocks") (simp_all add: Decode_def)
  from Initialize_Inr [OF init]
  have f: "Recovery dec = ?Rp" "ErasuresIndices dec = ?E" by simp_all
  from Initialize_counts [OF init] show m: "length ?E = length ?Rp"
    by (simp add: f)
  have bound: "p < length blocks" if "p \<in> set ?Rp" for p
    using that by (simp add: set_recovery_positions)
  have "length out = length blocks \<and> (\<forall>i<length ?Rp. Index (out ! (?Rp ! i)) = ?E ! i) \<and>
        (\<forall>q. q \<notin> set ?Rp \<longrightarrow> out ! q = blocks ! q)"
  proof -
    consider "?E = []" | "length ?E = 1" | "?E \<noteq> []" "length ?E \<noteq> 1" by blast
    then show ?thesis
    proof cases
      case 1
      with m have "?Rp = []" by simp
      with 1 init f assms show ?thesis by (simp add: Decode_def)
    next
      case 2
      then obtain e where E: "?E = [e]" by (cases ?E) simp_all
      from 2 m obtain pos where R: "?Rp = [pos]" by (cases ?Rp) simp_all
      from DecodeM1_frame [of dec pos e X blocks] f R E obtain b
        where "DecodeM1 X dec blocks = blocks[pos := \<lparr>Block = b, Index = e\<rparr>]" by auto
      with init f E R assms have "out = blocks[pos := \<lparr>Block = b, Index = e\<rparr>]"
        by (simp add: Decode_def)
      moreover have "pos < length blocks" using bound [of pos] by (simp add: R)
      ultimately show ?thesis by (simp add: R E)
    next
      case 3
      with init f m assms have "DecodeM X dec blocks = Some out"
        by (simp add: Decode_def split: option.splits)
      from DecodeM_frame [OF this] distinct_positions(2) [of params blocks] m bound
      show ?thesis by (simp add: f)
    qed
  qed
  then show "length out = length blocks"
    and "\<And>i. i < length ?Rp \<Longrightarrow> Index (out ! (?Rp ! i)) = ?E ! i"
    and "\<And>q. q \<notin> set ?Rp \<Longrightarrow> out ! q = blocks ! q"
    by simp_all
qed

text \<open>
  C2. The frame of \<open>Decode\<close>. Whenever \<open>Decode\<close> returns blocks, it returns the array with
  every block in its place: a block whose index was an original index is unchanged, buffer
  and index; a block whose index was a recovery index has the index of an original that was
  missing, and in the order of the array these blocks get the missing indices in increasing
  order. When moreover the blocks were supplied as for the round trip, from originals and
  the recovery blocks that \<open>Encode\<close> returned for them, the buffer of every block whose
  index was a recovery index holds the original of its new index.
\<close>

theorem Decode_frame:
  assumes "Decode X params blocks = Inr out"
  shows "length out = length blocks \<and>
         (\<forall>q<length blocks.
            if is_original params (blocks ! q) then out ! q = blocks ! q
            else Index (out ! q) \<in> set (missing_originals params blocks)) \<and>
         map (\<lambda>q. Index (out ! q)) (recovery_positions params blocks)
           = missing_originals params blocks \<and>
         (X = index_assignment params \<and>
          int (length originals) = OriginalCount params \<and>
          list_all (\<lambda>b. length (Block b) = nat (BlockBytes params)) originals \<and>
          Encode X params originals = Inr recoveryBlocks \<and>
          supplied params originals recoveryBlocks blocks \<longrightarrow>
            (\<forall>q<length blocks. \<not> is_original params (blocks ! q) \<longrightarrow>
               Block (out ! q) = Block (originals ! unat (Index (out ! q)))))"
proof -
  let ?Rp = "recovery_positions params blocks"
  let ?E = "missing_originals params blocks"
  note fr = Decode_Inr_frame [OF assms]
  have idx: "if is_original params (blocks ! q) then out ! q = blocks ! q
             else Index (out ! q) \<in> set ?E" if q: "q < length blocks" for q
  proof (cases "is_original params (blocks ! q)")
    case True
    with q have "q \<notin> set ?Rp" by (simp add: set_recovery_positions)
    with fr(4) True show ?thesis by simp
  next
    case False
    with q have "q \<in> set ?Rp" by (simp add: set_recovery_positions)
    then obtain i where i: "i < length ?Rp" "q = ?Rp ! i"
      by (auto simp add: in_set_conv_nth)
    with fr(2) fr(3) [of i] have "Index (out ! q) \<in> set ?E" by simp
    with False show ?thesis by simp
  qed
  have order: "map (\<lambda>q. Index (out ! q)) ?Rp = ?E"
    using fr(2,3) by (intro nth_equalityI) simp_all
  have content: "Block (out ! q) = Block (originals ! unat (Index (out ! q)))"
    if x: "X = index_assignment params"
      and l: "int (length originals) = OriginalCount params"
      and b: "list_all (\<lambda>b. length (Block b) = nat (BlockBytes params)) originals"
      and e: "Encode X params originals = Inr recoveryBlocks"
      and s: "supplied params originals recoveryBlocks blocks"
      and q: "q < length blocks" "\<not> is_original params (blocks ! q)"
    for q
  proof -
    from e have v: "valid_params params"
      by (simp add: Encode_def split: if_splits)
    from disjoint_index_assignment [OF v] x have d: "disjoint_assignment params X" by simp
    have st: "stripe X params originals recoveryBlocks blocks"
      by (rule stripeI [OF v d l b e s])
    from stripe_Decode [OF st] assms
    have rec: "\<And>i. i < length ?Rp \<Longrightarrow>
                 out ! (?Rp ! i) = \<lparr>Block = Block (originals ! unat (?E ! i)), Index = ?E ! i\<rparr>"
      by auto
    from q have "q \<in> set ?Rp" by (simp add: set_recovery_positions)
    then obtain i where i: "i < length ?Rp" "q = ?Rp ! i"
      by (auto simp add: in_set_conv_nth)
    with rec [of i] show ?thesis by simp
  qed
  from fr(1) idx order content show ?thesis by blast
qed

theorem Decode_frame_witness:
  "\<exists>rec. Encode (index_assignment \<lparr>OriginalCount = 2, RecoveryCount = 2, BlockBytes = 2\<rparr>)
            \<lparr>OriginalCount = 2, RecoveryCount = 2, BlockBytes = 2\<rparr>
            [\<lparr>Block = [17, 34], Index = 0\<rparr>, \<lparr>Block = [51, 68], Index = 1\<rparr>]
          = Inr rec \<and>
     (\<exists>out. Decode (index_assignment \<lparr>OriginalCount = 2, RecoveryCount = 2, BlockBytes = 2\<rparr>)
              \<lparr>OriginalCount = 2, RecoveryCount = 2, BlockBytes = 2\<rparr>
              [\<lparr>Block = recovery_slice \<lparr>OriginalCount = 2, RecoveryCount = 2, BlockBytes = 2\<rparr> rec 1,
                 Index = 3\<rparr>,
               \<lparr>Block = [17, 34], Index = 0\<rparr>]
            = Inr out \<and> length out = 2 \<and>
            out ! 1 = \<lparr>Block = [17, 34], Index = 0\<rparr> \<and>
            Index (out ! 0) = 1 \<and> Block (out ! 0) = [51, 68])"
proof -
  let ?p = "\<lparr>OriginalCount = 2, RecoveryCount = 2, BlockBytes = 2\<rparr>"
  let ?os = "[\<lparr>Block = [17, 34 :: uint8], Index = 0 :: uint8\<rparr>, \<lparr>Block = [51, 68], Index = 1\<rparr>]"
  have v: "valid_params ?p" by (simp add: valid_params_def)
  have d: "disjoint_assignment ?p (index_assignment ?p)"
    by (rule disjoint_index_assignment [OF v])
  have l: "int (length ?os) = OriginalCount ?p" by simp
  have b: "list_all (\<lambda>b. length (Block b) = nat (BlockBytes ?p)) ?os" by simp
  from Encode_succeeds [OF v l] obtain rec
    where e: "Encode (index_assignment ?p) ?p ?os = Inr rec" by blast
  let ?bs = "[\<lparr>Block = recovery_slice ?p rec 1, Index = 3 :: uint8\<rparr>,
              \<lparr>Block = [17, 34], Index = 0\<rparr>]"
  have s: "supplied ?p ?os rec ?bs"
    by (simp add: supplied_def supplied_block_def is_original_def recovery_row_def)
  have mo: "missing_originals ?p [\<lparr>Block = x, Index = 3\<rparr>, \<lparr>Block = [17, 34], Index = 0\<rparr>] = [1]"
    for x :: "uint8 list"
    by (simp add: missing_originals_def upt_conv_Cons)
  from stripe_Decode [OF stripeI [OF v d l b e s]] obtain out
    where o: "Decode (index_assignment ?p) ?p ?bs = Inr out" by blast
  from Decode_frame [OF o, of ?os rec] l b e s
  have f: "length out = length ?bs"
    "\<forall>q<length ?bs. if is_original ?p (?bs ! q) then out ! q = ?bs ! q
                      else Index (out ! q) \<in> set (missing_originals ?p ?bs)"
    "\<forall>q<length ?bs. \<not> is_original ?p (?bs ! q) \<longrightarrow>
                      Block (out ! q) = Block (?os ! unat (Index (out ! q)))"
    by blast+
  from spec [OF f(2), of 1] have "if is_original ?p (?bs ! 1) then out ! 1 = ?bs ! 1
              else Index (out ! 1) \<in> set (missing_originals ?p ?bs)"
    by simp
  then have o1: "out ! 1 = \<lparr>Block = [17, 34], Index = 0\<rparr>"
    by (simp add: is_original_def)
  from spec [OF f(2), of 0] have "if is_original ?p (?bs ! 0) then out ! 0 = ?bs ! 0
              else Index (out ! 0) \<in> set (missing_originals ?p ?bs)"
    by simp
  then have i0: "Index (out ! 0) = 1"
    by (simp add: is_original_def mo)
  from spec [OF f(3), of 0] have "\<not> is_original ?p (?bs ! 0) \<longrightarrow>
                      Block (out ! 0) = Block (?os ! unat (Index (out ! 0)))"
    by simp
  with i0 have b0: "Block (out ! 0) = [51, 68]"
    by (simp add: is_original_def)
  from f(1) o1 i0 b0 have "length out = 2 \<and> out ! 1 = \<lparr>Block = [17, 34], Index = 0\<rparr> \<and>
            Index (out ! 0) = 1 \<and> Block (out ! 0) = [51, 68]"
    by simp
  with o have "\<exists>out. Decode (index_assignment ?p) ?p ?bs = Inr out \<and> length out = 2 \<and>
            out ! 1 = \<lparr>Block = [17, 34], Index = 0\<rparr> \<and>
            Index (out ! 0) = 1 \<and> Block (out ! 0) = [51, 68]"
    by (intro exI [of _ out] conjI) simp_all
  with e show ?thesis by (intro exI [of _ rec] conjI)
qed

end
